theory Spec2Isabelle
  imports Complex_Main "HOL-Library.Word" "HOL-Library.Multiset" "HOL-Library.Monad_Syntax"
    "HOL-Library.Log_Nat"
begin

section \<open>Numbers and buffers\<close>

text \<open>
  Go's \<^verbatim>\<open>uint\<close> is a 64-bit unsigned integer on the platforms the package targets:
  addition wraps, comparison is unsigned.

  A \<^verbatim>\<open>float64\<close> that holds a finite sample is modelled by the real number it denotes.
  The arithmetic on samples is exact, with one exception: where \<^verbatim>\<open>Onset.Do\<close> turns a
  float into a sample position, the product, the sum and the conversions are rounded as
  the hardware rounds them (\<open>fl64\<close> below), because there the last bit decides which
  integer comes out.  Where the code divides without checking the divisor, or takes a
  logarithm, the result is an \<open>f64\<close>, which keeps the IEEE special values apart from the
  finite ones.

  An \<^verbatim>\<open>Fvec\<close> is built by \<^verbatim>\<open>NewFvec\<close> with \<^verbatim>\<open>Length = len(Data)\<close> and no function of
  the package changes either, so it is modelled by the list of its samples.
\<close>

type_synonym uint = "64 word"

type_synonym Fvec = "real list"

datatype f64 = Finite real | PosInf | NegInf | NaN

text \<open>\<^verbatim>\<open>a / b\<close> on finite operands: IEEE division by zero gives an infinity or NaN.\<close>

definition fdiv :: "real \<Rightarrow> real \<Rightarrow> f64" where
  "fdiv a b =
     (if b \<noteq> 0 then Finite (a / b)
      else if a > 0 then PosInf
      else if a < 0 then NegInf
      else NaN)"

text \<open>Addition, the product with a finite factor and \<^verbatim>\<open>math.Log\<close> on these values.\<close>

fun fadd :: "f64 \<Rightarrow> f64 \<Rightarrow> f64" where
  "fadd (Finite a) (Finite b) = Finite (a + b)"
| "fadd NaN _ = NaN"
| "fadd _ NaN = NaN"
| "fadd PosInf NegInf = NaN"
| "fadd NegInf PosInf = NaN"
| "fadd PosInf _ = PosInf"
| "fadd _ PosInf = PosInf"
| "fadd NegInf _ = NegInf"
| "fadd _ NegInf = NegInf"

fun fscale :: "real \<Rightarrow> f64 \<Rightarrow> f64" where
  "fscale a (Finite b) = Finite (a * b)"
| "fscale a NaN = NaN"
| "fscale a PosInf = (if a > 0 then PosInf else if a < 0 then NegInf else NaN)"
| "fscale a NegInf = (if a > 0 then NegInf else if a < 0 then PosInf else NaN)"

fun flog :: "f64 \<Rightarrow> f64" where
  "flog (Finite a) = (if a > 0 then Finite (ln a) else if a = 0 then NegInf else NaN)"
| "flog PosInf = PosInf"
| "flog NegInf = NaN"
| "flog NaN = NaN"

text \<open>\<^verbatim>\<open>x > 0\<close> on a float: false for NaN.\<close>

fun f64_gt0 :: "f64 \<Rightarrow> bool" where
  "f64_gt0 (Finite r) = (r > 0)"
| "f64_gt0 PosInf = True"
| "f64_gt0 NegInf = False"
| "f64_gt0 NaN = False"

text \<open>The conversion \<^verbatim>\<open>float64(u)\<close> of a \<^verbatim>\<open>uint\<close>.\<close>

definition float64_of_uint :: "uint \<Rightarrow> real" where
  "float64_of_uint u = real (unat u)"

text \<open>\<^verbatim>\<open>func Max(a, b uint) uint\<close>\<close>

definition Max_uint :: "uint \<Rightarrow> uint \<Rightarrow> uint" where
  "Max_uint a b = (if a > b then a else b)"

subsection \<open>Rounding to \<^verbatim>\<open>float64\<close>\<close>

text \<open>
  A \<^verbatim>\<open>float64\<close> operation returns the exact result rounded to 53 significant bits, to
  the nearest representable number and to the one with an even last bit when two are
  equally near.  \<open>binade x\<close> is the exponent \<open>e\<close> with \<open>2\<^sup>e \<le> x < 2\<^sup>e\<^sup>+\<^sup>1\<close> of a positive
  \<open>x\<close>, and the representable numbers of that range are the multiples of \<open>2\<^sup>e\<^sup>-\<^sup>5\<^sup>2\<close>.  The
  exponent range is not bounded here: a result beyond it is far outside the range of
  the integer conversion that follows, and a result below it vanishes in the sum with
  \<open>0.5\<close>.
\<close>

definition round_even :: "real \<Rightarrow> int" where
  "round_even x =
     (let n = \<lfloor>x\<rfloor>; d = x - of_int n
      in if d < 1/2 then n else if d > 1/2 then n + 1 else if even n then n else n + 1)"

definition binade :: "real \<Rightarrow> int" where
  "binade x = (if 1 \<le> x then bitlen \<lfloor>x\<rfloor> - 1 else - bitlen (\<lceil>1 / x\<rceil> - 1))"

definition fl64 :: "real \<Rightarrow> real" where
  "fl64 x =
     (if x = 0 then 0
      else (let u = 2 powi (binade \<bar>x\<bar> - 52) in of_int (round_even (x / u)) * u))"

text \<open>
  The conversion \<^verbatim>\<open>int(f)\<close> of a \<^verbatim>\<open>float64\<close> truncates towards zero.  For a value outside
  the range of \<^verbatim>\<open>int\<close> the language leaves the result to the implementation; the 64-bit
  x86 instruction that the compiler emits returns \<open>-2\<^sup>6\<^sup>3\<close>.
\<close>

definition int_of_float64 :: "real \<Rightarrow> int" where
  "int_of_float64 f =
     (if - (2 ^ 63) \<le> f \<and> f < 2 ^ 63 then (if 0 \<le> f then \<lfloor>f\<rfloor> else \<lceil>f\<rceil>)
      else - (2 ^ 63))"

text \<open>
  \<^verbatim>\<open>func Round(x float64) int { return int(math.Floor(x + 0.5)) }\<close>: the sum is a
  \<^verbatim>\<open>float64\<close> addition, \<^verbatim>\<open>math.Floor\<close> is exact.
\<close>

definition Round :: "real \<Rightarrow> int" where
  "Round x = int_of_float64 (of_int \<lfloor>fl64 (x + 0.5)\<rfloor>)"

subsection \<open>Indexing and counted loops\<close>

text \<open>
  Go panics on an index out of range.  \<open>load xs i\<close> is the read \<^verbatim>\<open>xs[i]\<close> and
  \<open>store xs i v\<close> the write \<^verbatim>\<open>xs[i] = v\<close>; \<open>None\<close> is the panic.
\<close>

definition load :: "'a list \<Rightarrow> nat \<Rightarrow> 'a option" where
  "load xs i = (if i < length xs then Some (xs ! i) else None)"

definition store :: "'a list \<Rightarrow> nat \<Rightarrow> 'a \<Rightarrow> 'a list option" where
  "store xs i v = (if i < length xs then Some (xs[i := v]) else None)"

text \<open>
  \<^verbatim>\<open>for j := a; j < b; j++ { body }\<close> with a bound that the body does not change: the
  body runs for \<open>j = a, \<dots>, b - 1\<close> in turn on the state, and a panic ends the loop.
\<close>

definition for_range :: "nat \<Rightarrow> nat \<Rightarrow> (nat \<Rightarrow> 's \<Rightarrow> 's option) \<Rightarrow> 's \<Rightarrow> 's option" where
  "for_range a b body s = fold (\<lambda>j acc. Option.bind acc (body j)) [a..<b] (Some s)"

subsection \<open>Local energy and silence\<close>

text \<open>
  \<^verbatim>\<open>LocalEnergyDB\<close> sums the squares of the samples from left to right and returns
  \<open>-90\<close> when the sum is not positive.
\<close>

definition LocalEnergyDB :: "Fvec \<Rightarrow> real" where
  "LocalEnergyDB f =
     (let energy = foldl (\<lambda>energy v. energy + v * v) 0 f
      in if energy > 0 then 10.0 * log 10 (energy / real (length f)) else -90.0)"

definition SilenceDetection :: "Fvec \<Rightarrow> real \<Rightarrow> bool" where
  "SilenceDetection input threshold = (let db = LocalEnergyDB input in db < threshold)"

section \<open>The onset detector's timing state\<close>

text \<open>
  The scalar fields of \<^verbatim>\<open>Onset\<close>.  The pipeline stages it points to (phase vocoder,
  whitening, descriptor, peak picker) are modelled on their own below; what they hand
  to the acceptance logic of \<^verbatim>\<open>Onset.Do\<close> is the one number the peak picker wrote to
  \<^verbatim>\<open>onset.Data[0]\<close>.
\<close>

record Onset =
  Silence :: real
  Minioi :: uint
  Delay :: uint
  Samplerate :: uint
  HopSize :: uint
  TotalFrames :: uint
  LastOnset :: uint
  ApplyCompression :: bool
  LambdaCompression :: real
  ApplyAWhitening :: bool

text \<open>
  \<^verbatim>\<open>Onset.Do\<close> from the line \<^verbatim>\<open>isonset = onset.Data[0]\<close> on.  \<open>pp\<close> is that value: the
  peak picker stores either \<open>0\<close> or the interpolated position of a strict peak, which is
  a finite number.  The result is the value stored back to \<^verbatim>\<open>onset.Data[0]\<close> and the new
  state; the stored value is not finite when the forced onset divides by a hop size of
  zero.  In \<^verbatim>\<open>uint(Round(isonset*float64(o.HopSize)))\<close> the conversion of the hop size and
  the product are rounded to \<^verbatim>\<open>float64\<close>, and \<^verbatim>\<open>uint(\<dots>)\<close> converts the signed result to
  \<^verbatim>\<open>uint\<close> by two's complement.
\<close>

definition Onset_Do :: "Onset \<Rightarrow> Fvec \<Rightarrow> real \<Rightarrow> f64 \<times> Onset" where
  "Onset_Do o1 input pp =
     (let (isonset, o2) =
        (if pp > 0 then
           (if SilenceDetection input (Silence o1) then (Finite 0, o1)
            else
              (let newOnset = TotalFrames o1
                     + word_of_int (Round (fl64 (pp * fl64 (float64_of_uint (HopSize o1)))))
               in if LastOnset o1 + Minioi o1 < newOnset then
                    (if LastOnset o1 > 0 \<and> Delay o1 > newOnset then (Finite 0, o1)
                     else (Finite pp, o1\<lparr>LastOnset := Max_uint (Delay o1) newOnset\<rparr>))
                  else (Finite 0, o1)))
         else
           (if TotalFrames o1 \<le> Delay o1 then
              (if \<not> SilenceDetection input (Silence o1) then
                 (let newOnset = TotalFrames o1
                  in if TotalFrames o1 = 0 \<or> LastOnset o1 + Minioi o1 < newOnset then
                       (fdiv (float64_of_uint (Delay o1)) (float64_of_uint (HopSize o1)),
                        o1\<lparr>LastOnset := TotalFrames o1 + Delay o1\<rparr>)
                     else (Finite pp, o1))
               else (Finite pp, o1))
            else (Finite pp, o1)))
      in (isonset, o2\<lparr>TotalFrames := TotalFrames o2 + HopSize o2\<rparr>))"

definition SetCompression :: "Onset \<Rightarrow> real \<Rightarrow> Onset" where
  "SetCompression o1 lambda =
     (if lambda < 0 then o1
      else o1\<lparr>LambdaCompression := lambda, ApplyCompression := (lambda > 0)\<rparr>)"

definition Reset :: "Onset \<Rightarrow> Onset" where
  "Reset o1 = o1\<lparr>LastOnset := 0, TotalFrames := 0\<rparr>"

text \<open>
  The state of \<^verbatim>\<open>NewOnset("hfc", 512, 256, 44100)\<close> after ten silent hops:
  \<^verbatim>\<open>Delay = uint(4.3 * 256)\<close>, \<^verbatim>\<open>Minioi = uint(Round(0.05 * 44100))\<close>.
\<close>

definition hfc_state :: Onset where
  "hfc_state =
     \<lparr>Silence = -70, Minioi = 2205, Delay = 1100, Samplerate = 44100, HopSize = 256,
      TotalFrames = 2560, LastOnset = 0, ApplyCompression = True, LambdaCompression = 1,
      ApplyAWhitening = False\<rparr>"


section \<open>The recursive filter\<close>

text \<open>
  \<^verbatim>\<open>Order\<close> is a \<^verbatim>\<open>uint\<close>; it is kept as a natural number and the one place where the
  code subtracts from it (\<^verbatim>\<open>f.Order - 1\<close>, which wraps to \<open>2\<^sup>6\<^sup>4 - 1\<close> for order 0) is
  written out.
\<close>

record Filter =
  Order :: nat
  A :: "real list"
  B :: "real list"
  X :: "real list"
  Y :: "real list"

text \<open>\<^verbatim>\<open>NewFilter\<close>: four slices of length \<open>order\<close>, then \<^verbatim>\<open>f.A[0] = 1.0; f.B[0] = 1.0\<close>.\<close>

definition NewFilter :: "nat \<Rightarrow> Filter option" where
  "NewFilter order =
     (let f = \<lparr>Order = order, A = replicate order 0, B = replicate order 0,
               X = replicate order 0, Y = replicate order 0\<rparr>
      in do {
        a \<leftarrow> store (A f) 0 1.0;
        b \<leftarrow> store (B f) 0 1.0;
        Some (f\<lparr>A := a, B := b\<rparr>)
      })"

text \<open>The body of the loop \<^verbatim>\<open>for l := uint(1); l < f.Order; l++\<close> of \<^verbatim>\<open>Filter.Do\<close>.\<close>

definition apply_step :: "nat \<Rightarrow> Filter \<Rightarrow> Filter option" where
  "apply_step l f =
     do {
       bl \<leftarrow> load (B f) l;
       xl \<leftarrow> load (X f) l;
       y0 \<leftarrow> load (Y f) 0;
       y1 \<leftarrow> store (Y f) 0 (y0 + bl * xl);
       al \<leftarrow> load (A f) l;
       yl \<leftarrow> load y1 l;
       y0' \<leftarrow> load y1 0;
       y2 \<leftarrow> store y1 0 (y0' - al * yl);
       Some (f\<lparr>Y := y2\<rparr>)
     }"

text \<open>
  The loop \<^verbatim>\<open>for l := f.Order - 1; l > 0; l-- { f.X[l] = f.X[l-1]; f.Y[l] = f.Y[l-1] }\<close>,
  started at \<open>l\<close>.
\<close>

fun shift_loop :: "nat \<Rightarrow> Filter \<Rightarrow> Filter option" where
  "shift_loop 0 f = Some f"
| "shift_loop (Suc l) f =
     do {
       x \<leftarrow> load (X f) l;
       xs \<leftarrow> store (X f) (Suc l) x;
       y \<leftarrow> load (Y f) l;
       ys \<leftarrow> store (Y f) (Suc l) y;
       shift_loop l (f\<lparr>X := xs, Y := ys\<rparr>)
     }"

text \<open>The body of the loop over the samples of \<^verbatim>\<open>Filter.Do\<close>; the buffer is filtered in place.\<close>

definition Do_step :: "nat \<Rightarrow> Filter \<times> Fvec \<Rightarrow> (Filter \<times> Fvec) option" where
  "Do_step j = (\<lambda>(f, inp).
     do {
       v \<leftarrow> load inp j;
       x \<leftarrow> store (X f) 0 v;
       b0 \<leftarrow> load (B f) 0;
       x0 \<leftarrow> load x 0;
       y \<leftarrow> store (Y f) 0 (b0 * x0);
       f1 \<leftarrow> for_range 1 (Order f) apply_step (f\<lparr>X := x, Y := y\<rparr>);
       y0 \<leftarrow> load (Y f1) 0;
       inp' \<leftarrow> store inp j y0;
       f2 \<leftarrow> shift_loop (if Order f1 = 0 then 2 ^ 64 - 1 else Order f1 - 1) f1;
       Some (f2, inp')
     })"

definition Filter_Do :: "Filter \<Rightarrow> Fvec \<Rightarrow> (Filter \<times> Fvec) option" where
  "Filter_Do f inp = for_range 0 (length inp) Do_step (f, inp)"

text \<open>\<^verbatim>\<open>Filter.Reset\<close>: \<^verbatim>\<open>for i := range f.X { f.X[i] = 0; f.Y[i] = 0 }\<close>.\<close>

definition Reset_step :: "nat \<Rightarrow> Filter \<Rightarrow> Filter option" where
  "Reset_step i f =
     do {
       x \<leftarrow> store (X f) i 0;
       y \<leftarrow> store (Y f) i 0;
       Some (f\<lparr>X := x, Y := y\<rparr>)
     }"

definition Filter_Reset :: "Filter \<Rightarrow> Filter option" where
  "Filter_Reset f = for_range 0 (length (X f)) Reset_step f"

text \<open>
  \<^verbatim>\<open>DoFiltFilt\<close>: filter, reset, mirror into the scratch buffer
  (\<^verbatim>\<open>tmp.Data[length-j-1] = in.Data[j]\<close>), filter the scratch buffer, reset, and mirror
  back (\<^verbatim>\<open>in.Data[j] = tmp.Data[length-j-1]\<close>).  The result is the filter, the buffer
  and the scratch buffer.
\<close>

definition mirror_step :: "Fvec \<Rightarrow> nat \<Rightarrow> nat \<Rightarrow> Fvec \<Rightarrow> Fvec option" where
  "mirror_step src len j dst = do { v \<leftarrow> load src j; store dst (len - j - 1) v }"

definition invert_step :: "Fvec \<Rightarrow> nat \<Rightarrow> nat \<Rightarrow> Fvec \<Rightarrow> Fvec option" where
  "invert_step src len j dst = do { v \<leftarrow> load src (len - j - 1); store dst j v }"

definition DoFiltFilt :: "Filter \<Rightarrow> Fvec \<Rightarrow> Fvec \<Rightarrow> (Filter \<times> Fvec \<times> Fvec) option" where
  "DoFiltFilt f inp tmp =
     (let len = length inp in
      do {
        (f1, in1) \<leftarrow> Filter_Do f inp;
        f2 \<leftarrow> Filter_Reset f1;
        tmp1 \<leftarrow> for_range 0 len (mirror_step in1 len) tmp;
        (f3, tmp2) \<leftarrow> Filter_Do f2 tmp1;
        f4 \<leftarrow> Filter_Reset f3;
        in2 \<leftarrow> for_range 0 len (invert_step tmp2 len) in1;
        Some (f4, in2, tmp2)
      })"

section \<open>Spectral frames and adaptive whitening\<close>

text \<open>
  A \<^verbatim>\<open>Cvec\<close> holds the magnitudes and the phases of the bins; \<^verbatim>\<open>NewCvec\<close> gives both
  slices the length stored in \<^verbatim>\<open>Length\<close>, which is therefore \<open>length (Norm c)\<close>.
\<close>

record Cvec =
  Norm :: "real list"
  Phas :: "real list"

definition NewCvec :: "nat \<Rightarrow> Cvec" where
  "NewCvec len =
     (let sz = len div 2 + 1 in \<lparr>Norm = replicate sz 0, Phas = replicate sz 0\<rparr>)"

text \<open>
  The fields of \<^verbatim>\<open>SpectralWhitening\<close>; its \<^verbatim>\<open>HopSize\<close> and \<^verbatim>\<open>Samplerate\<close> carry a prefix
  here because the detector has fields of the same names.
\<close>

record SpectralWhitening =
  BufSize :: uint
  SW_HopSize :: uint
  SW_Samplerate :: uint
  RelaxTime :: real
  RDecay :: real
  Floor :: real
  PeakValues :: Fvec

text \<open>The body of the loop over the bins of \<^verbatim>\<open>SpectralWhitening.Do\<close>.\<close>

definition Whitening_step ::
  "nat \<Rightarrow> SpectralWhitening \<times> Cvec \<Rightarrow> (SpectralWhitening \<times> Cvec) option" where
  "Whitening_step i = (\<lambda>(s, fftgrain).
     do {
       pv \<leftarrow> load (PeakValues s) i;
       let tmp = max (RDecay s * pv) (Floor s);
       n \<leftarrow> load (Norm fftgrain) i;
       peaks \<leftarrow> store (PeakValues s) i (max n tmp);
       pk \<leftarrow> load peaks i;
       if pk > 0 then
         do {
           n' \<leftarrow> load (Norm fftgrain) i;
           norm \<leftarrow> store (Norm fftgrain) i (n' / pk);
           Some (s\<lparr>PeakValues := peaks\<rparr>, fftgrain\<lparr>Norm := norm\<rparr>)
         }
       else Some (s\<lparr>PeakValues := peaks\<rparr>, fftgrain)
     })"

definition Whitening_Do ::
  "SpectralWhitening \<Rightarrow> Cvec \<Rightarrow> (SpectralWhitening \<times> Cvec) option" where
  "Whitening_Do s fftgrain =
     (let len = length (Norm fftgrain);
          len = (if length (PeakValues s) < len then length (PeakValues s) else len)
      in for_range 0 len Whitening_step (s, fftgrain))"

definition SetFloor :: "SpectralWhitening \<Rightarrow> real \<Rightarrow> SpectralWhitening" where
  "SetFloor s fl = s\<lparr>Floor := fl\<rparr>"

text \<open>\<^verbatim>\<open>SpectralWhitening.Reset\<close> sets every tracked peak to the floor.\<close>

definition Whitening_Reset :: "SpectralWhitening \<Rightarrow> SpectralWhitening" where
  "Whitening_Reset s = s\<lparr>PeakValues := map (\<lambda>_. Floor s) (PeakValues s)\<rparr>"

text \<open>
  A one-bin whitening stage as \<^verbatim>\<open>NewSpectralWhitening\<close> leaves it (floor \<open>10\<^sup>-\<^sup>4\<close>, every
  peak at the floor), with a decay of one half, and a one-bin frame of magnitude one half.
\<close>

definition fresh_whitening :: SpectralWhitening where
  "fresh_whitening =
     \<lparr>BufSize = 0, SW_HopSize = 256, SW_Samplerate = 44100, RelaxTime = 250,
      RDecay = 1 / 2, Floor = 1 / 10000, PeakValues = [1 / 10000]\<rparr>"

definition half_frame :: Cvec where
  "half_frame = \<lparr>Norm = [1 / 2], Phas = [0]\<rparr>"

section \<open>The spectral descriptors\<close>

datatype SpecdescType =
  OnsetEnergy | OnsetSpecdiff | OnsetHFC | OnsetComplex | OnsetPhase | OnsetWPhase
  | OnsetKL | OnsetMKL | OnsetSpecflux

record Specdesc =
  OnsetType :: SpecdescType
  Threshold :: real
  OldMag :: Fvec
  Dev1 :: Fvec
  Theta1 :: Fvec
  Theta2 :: Fvec

text \<open>
  \<^verbatim>\<open>NewSpecdesc\<close>, after its switch has turned the mode string into the descriptor type:
  the threshold is \<open>0.1\<close> and the four histories are zeroed slices of length
  \<open>size/2 + 1\<close>.
\<close>

definition NewSpecdesc :: "SpecdescType \<Rightarrow> nat \<Rightarrow> Specdesc" where
  "NewSpecdesc t bufsize =
     (let rsize = bufsize div 2 + 1
      in \<lparr>OnsetType = t, Threshold = 0.1, OldMag = replicate rsize 0, Dev1 = replicate rsize 0,
          Theta1 = replicate rsize 0, Theta2 = replicate rsize 0\<rparr>)"

text \<open>
  Each descriptor is a loop over the bins \<open>j\<close> of the frame.  The loop state is the
  descriptor object and the sum \<^verbatim>\<open>onset.Data[0]\<close>.
\<close>

definition energy_step :: "Cvec \<Rightarrow> nat \<Rightarrow> Specdesc \<times> f64 \<Rightarrow> (Specdesc \<times> f64) option" where
  "energy_step fftgrain j = (\<lambda>(s, onset).
     do {
       n \<leftarrow> load (Norm fftgrain) j;
       Some (s, fadd onset (Finite (n * n)))
     })"

definition hfc_step :: "Cvec \<Rightarrow> nat \<Rightarrow> Specdesc \<times> f64 \<Rightarrow> (Specdesc \<times> f64) option" where
  "hfc_step fftgrain j = (\<lambda>(s, onset).
     do {
       n \<leftarrow> load (Norm fftgrain) j;
       Some (s, fadd onset (Finite (real (j + 1) * n)))
     })"

definition complex_step :: "Cvec \<Rightarrow> nat \<Rightarrow> Specdesc \<times> f64 \<Rightarrow> (Specdesc \<times> f64) option" where
  "complex_step fftgrain j = (\<lambda>(s, onset).
     do {
       t1 \<leftarrow> load (Theta1 s) j;
       t2 \<leftarrow> load (Theta2 s) j;
       dev1 \<leftarrow> store (Dev1 s) j (2.0 * t1 - t2);
       d \<leftarrow> load dev1 j;
       ph \<leftarrow> load (Phas fftgrain) j;
       let dev = d - ph;
       om \<leftarrow> load (OldMag s) j;
       n \<leftarrow> load (Norm fftgrain) j;
       let val = om * om + n * n - 2.0 * om * n * cos dev;
       let onset' = (if val > 0 then fadd onset (Finite (sqrt val)) else onset);
       theta2 \<leftarrow> store (Theta2 s) j t1;
       theta1 \<leftarrow> store (Theta1 s) j ph;
       oldmag \<leftarrow> store (OldMag s) j n;
       Some (s\<lparr>Dev1 := dev1, Theta2 := theta2, Theta1 := theta1, OldMag := oldmag\<rparr>, onset')
     })"

definition phase_step :: "Cvec \<Rightarrow> nat \<Rightarrow> Specdesc \<times> f64 \<Rightarrow> (Specdesc \<times> f64) option" where
  "phase_step fftgrain j = (\<lambda>(s, onset).
     do {
       ph \<leftarrow> load (Phas fftgrain) j;
       t1 \<leftarrow> load (Theta1 s) j;
       let dev = \<bar>ph - t1\<bar>;
       n \<leftarrow> load (Norm fftgrain) j;
       let onset' = (if Threshold s < n then fadd onset (Finite dev) else onset);
       theta1 \<leftarrow> store (Theta1 s) j ph;
       Some (s\<lparr>Theta1 := theta1\<rparr>, onset')
     })"

definition wphase_step :: "Cvec \<Rightarrow> nat \<Rightarrow> Specdesc \<times> f64 \<Rightarrow> (Specdesc \<times> f64) option" where
  "wphase_step fftgrain j = (\<lambda>(s, onset).
     do {
       ph \<leftarrow> load (Phas fftgrain) j;
       t1 \<leftarrow> load (Theta1 s) j;
       let dev = \<bar>ph - t1\<bar>;
       n \<leftarrow> load (Norm fftgrain) j;
       let onset' = (if Threshold s < n then fadd onset (Finite (n * dev)) else onset);
       theta1 \<leftarrow> store (Theta1 s) j ph;
       Some (s\<lparr>Theta1 := theta1\<rparr>, onset')
     })"

definition specdiff_step :: "Cvec \<Rightarrow> nat \<Rightarrow> Specdesc \<times> f64 \<Rightarrow> (Specdesc \<times> f64) option" where
  "specdiff_step fftgrain j = (\<lambda>(s, onset).
     do {
       n \<leftarrow> load (Norm fftgrain) j;
       om \<leftarrow> load (OldMag s) j;
       let val = n * n - om * om;
       dev1 \<leftarrow> store (Dev1 s) j (if val > 0 then sqrt val else 0.0);
       d \<leftarrow> load dev1 j;
       let onset' = (if Threshold s < n then fadd onset (Finite \<bar>d\<bar>) else onset);
       oldmag \<leftarrow> store (OldMag s) j n;
       Some (s\<lparr>Dev1 := dev1, OldMag := oldmag\<rparr>, onset')
     })"

definition kl_step :: "Cvec \<Rightarrow> nat \<Rightarrow> Specdesc \<times> f64 \<Rightarrow> (Specdesc \<times> f64) option" where
  "kl_step fftgrain j = (\<lambda>(s, onset).
     do {
       n \<leftarrow> load (Norm fftgrain) j;
       om \<leftarrow> load (OldMag s) j;
       let onset' = fadd onset (fscale n (flog (fadd (Finite 1.0) (fdiv n (om + 0.1)))));
       oldmag \<leftarrow> store (OldMag s) j n;
       Some (s\<lparr>OldMag := oldmag\<rparr>, onset')
     })"

definition mkl_step :: "Cvec \<Rightarrow> nat \<Rightarrow> Specdesc \<times> f64 \<Rightarrow> (Specdesc \<times> f64) option" where
  "mkl_step fftgrain j = (\<lambda>(s, onset).
     do {
       n \<leftarrow> load (Norm fftgrain) j;
       om \<leftarrow> load (OldMag s) j;
       let onset' = fadd onset (flog (fadd (Finite 1.0) (fdiv n (om + 0.1))));
       oldmag \<leftarrow> store (OldMag s) j n;
       Some (s\<lparr>OldMag := oldmag\<rparr>, onset')
     })"

definition specflux_step :: "Cvec \<Rightarrow> nat \<Rightarrow> Specdesc \<times> f64 \<Rightarrow> (Specdesc \<times> f64) option" where
  "specflux_step fftgrain j = (\<lambda>(s, onset).
     do {
       n \<leftarrow> load (Norm fftgrain) j;
       om \<leftarrow> load (OldMag s) j;
       let onset' = (if n > om then fadd onset (Finite (n - om)) else onset);
       oldmag \<leftarrow> store (OldMag s) j n;
       Some (s\<lparr>OldMag := oldmag\<rparr>, onset')
     })"

text \<open>\<^verbatim>\<open>if math.IsNaN(onset.Data[0]) { onset.Data[0] = 0.0 }\<close>\<close>

definition clamp_NaN :: "Specdesc \<times> f64 \<Rightarrow> Specdesc \<times> f64" where
  "clamp_NaN = (\<lambda>(s, onset). (s, if onset = NaN then Finite 0.0 else onset))"

text \<open>\<^verbatim>\<open>Specdesc.Do\<close>: the new descriptor state and the novelty value.\<close>

definition Specdesc_Do :: "Specdesc \<Rightarrow> Cvec \<Rightarrow> (Specdesc \<times> f64) option" where
  "Specdesc_Do s fftgrain =
     (let len = length (Norm fftgrain); start = (s, Finite 0.0) in
      case OnsetType s of
        OnsetEnergy \<Rightarrow> for_range 0 len (energy_step fftgrain) start
      | OnsetHFC \<Rightarrow> for_range 0 len (hfc_step fftgrain) start
      | OnsetComplex \<Rightarrow> for_range 0 len (complex_step fftgrain) start
      | OnsetPhase \<Rightarrow> for_range 0 len (phase_step fftgrain) start
      | OnsetWPhase \<Rightarrow> for_range 0 len (wphase_step fftgrain) start
      | OnsetSpecdiff \<Rightarrow> for_range 0 len (specdiff_step fftgrain) start
      | OnsetKL \<Rightarrow> map_option clamp_NaN (for_range 0 len (kl_step fftgrain) start)
      | OnsetMKL \<Rightarrow> map_option clamp_NaN (for_range 0 len (mkl_step fftgrain) start)
      | OnsetSpecflux \<Rightarrow> for_range 0 len (specflux_step fftgrain) start)"

section \<open>Peak detection in the three-element window\<close>

text \<open>\<^verbatim>\<open>FvecPeakPick\<close>; the position and the length are \<^verbatim>\<open>uint\<close>, so \<^verbatim>\<open>Length - 1\<close> wraps.\<close>

definition FvecPeakPick :: "Fvec \<Rightarrow> uint \<Rightarrow> bool option" where
  "FvecPeakPick onset pos =
     (if pos = 0 \<or> pos \<ge> of_nat (length onset) - 1 then Some False
      else do {
        a \<leftarrow> load onset (unat pos);
        b \<leftarrow> load onset (unat (pos - 1));
        if a > b then
          do {
            c \<leftarrow> load onset (unat (pos + 1));
            Some (a > c \<and> a > 0)
          }
        else Some False
      })"

text \<open>
  \<^verbatim>\<open>FvecQuadraticPeakPos\<close>.  The last branch is the division
  \<^verbatim>\<open>float64(pos) + 0.5*(s0-s2)/(s0-2.0*s1+s2)\<close>, which the code does not guard.
\<close>

definition FvecQuadraticPeakPos :: "Fvec \<Rightarrow> uint \<Rightarrow> f64 option" where
  "FvecQuadraticPeakPos x pos =
     (if pos = 0 \<or> pos = of_nat (length x) - 1 then Some (Finite (float64_of_uint pos))
      else
        let x0 = (if pos \<ge> 1 then pos - 1 else pos);
            x2 = (if pos + 1 \<ge> of_nat (length x) then pos else pos + 1)
        in if x0 = pos then
             do {
               a \<leftarrow> load x (unat pos);
               b \<leftarrow> load x (unat x2);
               Some (Finite (float64_of_uint (if a \<le> b then pos else x2)))
             }
           else if x2 = pos then
             do {
               a \<leftarrow> load x (unat pos);
               b \<leftarrow> load x (unat x0);
               Some (Finite (float64_of_uint (if a \<le> b then pos else x0)))
             }
           else
             do {
               s0 \<leftarrow> load x (unat x0);
               s1 \<leftarrow> load x (unat pos);
               s2 \<leftarrow> load x (unat x2);
               Some (fadd (Finite (float64_of_uint pos))
                          (fdiv (0.5 * (s0 - s2)) (s0 - 2.0 * s1 + s2)))
             })"

section \<open>Median selection\<close>

text \<open>
  \<^verbatim>\<open>FvecMedian\<close> copies the samples and selects the element of rank \<open>(n - 1) / 2\<close> by
  repeated partitioning.  The indices \<^verbatim>\<open>low\<close>, \<^verbatim>\<open>ll\<close>, \<^verbatim>\<open>hh\<close> and \<^verbatim>\<open>median\<close> never go
  below zero and are natural numbers here; \<^verbatim>\<open>high\<close> can become \<open>-1\<close> and is an integer.

  \<open>exchange arr i j\<close> is \<^verbatim>\<open>arr[i], arr[j] = arr[j], arr[i]\<close> and \<open>order2 arr i j\<close> is
  \<^verbatim>\<open>if arr[i] > arr[j] { arr[i], arr[j] = arr[j], arr[i] }\<close>.
\<close>

definition exchange :: "Fvec \<Rightarrow> nat \<Rightarrow> nat \<Rightarrow> Fvec option" where
  "exchange arr i j =
     do {
       a \<leftarrow> load arr i;
       b \<leftarrow> load arr j;
       arr1 \<leftarrow> store arr i b;
       store arr1 j a
     }"

definition order2 :: "Fvec \<Rightarrow> nat \<Rightarrow> nat \<Rightarrow> Fvec option" where
  "order2 arr i j =
     do {
       a \<leftarrow> load arr i;
       b \<leftarrow> load arr j;
       if a > b then exchange arr i j else Some arr
     }"

text \<open>
  \<^verbatim>\<open>for ll++; arr[low] > arr[ll]; ll++ { }\<close>: increment, then repeat while the element is
  below the pivot \<^verbatim>\<open>arr[low]\<close>.  The argument is \<^verbatim>\<open>ll\<close> before the increment, the result
  is \<^verbatim>\<open>ll\<close> after the loop.
\<close>

function scan_up :: "Fvec \<Rightarrow> nat \<Rightarrow> nat \<Rightarrow> nat option" where
  "scan_up arr low ll =
     (if low < length arr \<and> Suc ll < length arr then
        (if arr ! low > arr ! Suc ll then scan_up arr low (Suc ll) else Some (Suc ll))
      else None)"
  by pat_completeness auto
termination
  by (relation "measure (\<lambda>(arr, low, ll). length arr - ll)") auto

declare scan_up.simps [simp del]

text \<open>
  \<^verbatim>\<open>for hh--; arr[hh] > arr[low]; hh-- { }\<close>.  The argument is \<^verbatim>\<open>hh\<close> before the
  decrement; decrementing \<open>0\<close> gives the index \<open>-1\<close>, and the read panics.
\<close>

fun scan_down :: "Fvec \<Rightarrow> nat \<Rightarrow> nat \<Rightarrow> nat option" where
  "scan_down arr low 0 = None"
| "scan_down arr low (Suc hh) =
     (if low < length arr \<and> hh < length arr then
        (if arr ! hh > arr ! low then scan_down arr low hh else Some hh)
      else None)"

lemma scan_up_bounds: "scan_up arr low ll = Some ll' \<Longrightarrow> ll < ll' \<and> ll' < length arr"
proof (induction arr low ll rule: scan_up.induct)
  case (1 arr low ll)
  then show ?case
    by (subst (asm) (2) scan_up.simps) (auto split: if_splits)
qed

lemma scan_down_bounds: "scan_down arr low hh = Some hh' \<Longrightarrow> hh' < hh"
  by (induction arr low hh rule: scan_down.induct) (auto split: if_splits)

lemma exchange_length: "exchange arr i j = Some arr' \<Longrightarrow> length arr' = length arr"
  by (auto simp: exchange_def load_def store_def split: if_splits)

text \<open>
  The partition loop: scan up, scan down, stop when the indices have crossed, otherwise
  exchange the two elements and repeat.  The result is the array and the final \<^verbatim>\<open>ll\<close>
  and \<^verbatim>\<open>hh\<close>.
\<close>

function partition_loop :: "Fvec \<Rightarrow> nat \<Rightarrow> nat \<Rightarrow> nat \<Rightarrow> (Fvec \<times> nat \<times> nat) option" where
  "partition_loop arr low ll hh =
     do {
       ll' \<leftarrow> scan_up arr low ll;
       hh' \<leftarrow> scan_down arr low hh;
       if hh' < ll' then Some (arr, ll', hh')
       else
         do {
           arr' \<leftarrow> exchange arr ll' hh';
           partition_loop arr' low ll' hh'
         }
     }"
  by pat_completeness auto
termination
proof (relation "measure (\<lambda>(arr, low, ll, hh). length arr - ll)")
  fix arr :: Fvec and low ll hh ll' hh' arr'
  assume "scan_up arr low ll = Some ll'" and "exchange arr ll' hh' = Some arr'"
  then show "((arr', low, ll', hh'), (arr, low, ll, hh))
               \<in> measure (\<lambda>(arr, low, ll, hh). length arr - ll)"
    using scan_up_bounds [of arr low ll ll'] exchange_length [of arr ll' hh' arr'] by auto
qed simp

declare partition_loop.simps [simp del]

lemma partition_loop_bounds:
  "partition_loop arr low ll hh = Some (arr', ll', hh') \<Longrightarrow> ll < ll' \<and> hh' < hh"
proof (induction arr low ll hh rule: partition_loop.induct)
  case (1 arr low ll hh)
  from "1.prems" obtain l1 h1 where l1: "scan_up arr low ll = Some l1"
    and h1: "scan_down arr low hh = Some h1"
    by (subst (asm) partition_loop.simps) (auto split: bind_splits)
  note b = scan_up_bounds [OF l1] scan_down_bounds [OF h1]
  show ?case
  proof (cases "h1 < l1")
    case True
    with "1.prems" l1 h1 b show ?thesis
      by (subst (asm) partition_loop.simps) simp
  next
    case False
    with "1.prems" l1 h1 obtain a1 where a1: "exchange arr l1 h1 = Some a1"
      and rec: "partition_loop a1 low l1 h1 = Some (arr', ll', hh')"
      by (subst (asm) partition_loop.simps) (auto split: bind_splits)
    from "1.IH" [OF l1 h1 False a1 rec] b show ?thesis by simp
  qed
qed

text \<open>
  One round of the outer loop on the active range \<open>[low, high]\<close> of more than two
  elements: order \<^verbatim>\<open>arr[middle]\<close>, \<^verbatim>\<open>arr[low]\<close> and \<^verbatim>\<open>arr[high]\<close> so that their median is
  in \<^verbatim>\<open>arr[low]\<close>, move the \<^verbatim>\<open>middle\<close> item to \<open>low + 1\<close>, partition, and exchange
  the pivot \<^verbatim>\<open>arr[low]\<close> with \<^verbatim>\<open>arr[hh]\<close>.  The result is the array with \<^verbatim>\<open>ll\<close> and \<^verbatim>\<open>hh\<close>.
\<close>

definition pivot_partition :: "Fvec \<Rightarrow> nat \<Rightarrow> nat \<Rightarrow> (Fvec \<times> nat \<times> nat) option" where
  "pivot_partition arr low high =
     do {
       let middle = (low + high) div 2;
       arr1 \<leftarrow> order2 arr middle high;
       arr2 \<leftarrow> order2 arr1 low high;
       arr3 \<leftarrow> order2 arr2 middle low;
       arr4 \<leftarrow> exchange arr3 middle (low + 1);
       (arr5, ll, hh) \<leftarrow> partition_loop arr4 low (low + 1) high;
       arr6 \<leftarrow> exchange arr5 low hh;
       Some (arr6, ll, hh)
     }"

lemma pivot_partition_bounds:
  "pivot_partition arr low high = Some (arr', ll, hh) \<Longrightarrow> low < ll \<and> hh < high"
  using partition_loop_bounds [of _ low "low + 1" high _ ll hh]
  by (fastforce simp: pivot_partition_def Let_def split: bind_splits)

text \<open>
  The outer loop of \<^verbatim>\<open>FvecMedian\<close>: return \<^verbatim>\<open>arr[median]\<close> when the active range
  \<open>[low, high]\<close> has one element or none, order the two elements when it has two, and
  otherwise partition and narrow the range: \<^verbatim>\<open>if hh <= median { low = ll }\<close> and
  \<^verbatim>\<open>if hh >= median { high = hh - 1 }\<close>.
\<close>

function median_loop :: "Fvec \<Rightarrow> nat \<Rightarrow> nat \<Rightarrow> int \<Rightarrow> real option" where
  "median_loop arr median low high =
     (if high \<le> int low then load arr median
      else if high = int low + 1 then
        do {
          arr1 \<leftarrow> order2 arr low (nat high);
          load arr1 median
        }
      else
        do {
          (arr6, ll, hh) \<leftarrow> pivot_partition arr low (nat high);
          let low' = (if hh \<le> median then ll else low);
          let high' = (if hh \<ge> median then int hh - 1 else high);
          median_loop arr6 median low' high'
        })"
  by pat_completeness auto
termination
proof (relation "measure (\<lambda>(arr, median, low, high). nat (high - int low))")
  fix arr :: Fvec and median low :: nat and high :: int
  fix x arr6 y ll hh low' high'
  assume "\<not> high \<le> int low" and "high \<noteq> int low + 1"
    and "pivot_partition arr low (nat high) = Some x"
    and "(arr6, y) = x" and "(ll, hh) = y"
    and "low' = (if hh \<le> median then ll else low)"
    and "high' = (if median \<le> hh then int hh - 1 else high)"
  then show "((arr6, median, low', high'), (arr, median, low, high))
               \<in> measure (\<lambda>(arr, median, low, high). nat (high - int low))"
    using pivot_partition_bounds [of arr low "nat high" arr6 ll hh] by auto
qed simp

declare median_loop.simps [simp del]

definition FvecMedian :: "Fvec \<Rightarrow> real option" where
  "FvecMedian input =
     (if length input = 0 then Some 0
      else
        let arr = input;
            n = length arr;
            low = 0;
            high = int n - 1;
            median = (low + nat high) div 2
        in median_loop arr median low high)"

text \<open>\<^verbatim>\<open>MedianSimple\<close>: sort a copy and take the middle, or the mean of the two middles.\<close>

definition MedianSimple :: "real list \<Rightarrow> real" where
  "MedianSimple data =
     (if length data = 0 then 0
      else
        let sorted = sort data; n = length sorted
        in if n mod 2 = 0 then (sorted ! (n div 2 - 1) + sorted ! (n div 2)) / 2
           else sorted ! (n div 2))"

section \<open>Reasoning about counted loops\<close>

lemma for_range_empty: "b \<le> a \<Longrightarrow> for_range a b body s = Some s"
  by (simp add: for_range_def)

lemma for_range_Suc:
  "a \<le> b \<Longrightarrow> for_range a (Suc b) body s = Option.bind (for_range a b body s) (body b)"
  by (simp add: for_range_def)

text \<open>An invariant that every iteration re-establishes holds after the loop, which does not panic.\<close>

lemma for_range_rule:
  assumes "a \<le> b" and "I a s"
    and "\<And>j s. a \<le> j \<Longrightarrow> j < b \<Longrightarrow> I j s \<Longrightarrow> \<exists>s'. body j s = Some s' \<and> I (Suc j) s'"
  shows "\<exists>s'. for_range a b body s = Some s' \<and> I b s'"
  using assms(1,3)
proof (induction b)
  case 0
  with assms(2) show ?case by (simp add: for_range_empty)
next
  case (Suc b)
  show ?case
  proof (cases "a = Suc b")
    case True
    with assms(2) show ?thesis by (simp add: for_range_empty)
  next
    case False
    with Suc.prems(1) have ab: "a \<le> b" by simp
    have "\<exists>s'. for_range a b body s = Some s' \<and> I b s'"
      using ab Suc.prems(2) by (intro Suc.IH) auto
    then obtain s1 where s1: "for_range a b body s = Some s1" "I b s1" by blast
    from Suc.prems(2) [OF ab _ s1(2)] obtain s2 where "body b s1 = Some s2" "I (Suc b) s2"
      by auto
    with s1 ab show ?thesis by (simp add: for_range_Suc)
  qed
qed

lemma for_range_fixed:
  assumes "\<And>j. a \<le> j \<Longrightarrow> j < b \<Longrightarrow> body j s = Some s"
  shows "for_range a b body s = Some s"
proof (cases "a \<le> b")
  case True
  have "\<exists>s'. for_range a b body s = Some s' \<and> (\<lambda>j s'. s' = s) b s'"
    using True by (rule for_range_rule [where I = "\<lambda>j s'. s' = s"]) (simp_all add: assms)
  then show ?thesis by simp
next
  case False
  then show ?thesis by (simp add: for_range_empty)
qed

lemma replicate_update_same: "(replicate n x)[j := x] = replicate n x"
  by (cases "j < n") (auto intro!: nth_equalityI simp: nth_list_update)

section \<open>Properties of the rounding\<close>

subsection \<open>Rounding to an integer\<close>







subsection \<open>The exponent of a positive number\<close>







subsection \<open>Rounded values\<close>











subsection \<open>The floor of a rounded sum with one half\<close>


section \<open>Properties of the timing state\<close>

subsection \<open>Unsigned arithmetic without wrap-around\<close>

lemma uint_add_no_wrap:
  fixes a b :: uint
  assumes "unat a + unat b < 2 ^ 64"
  shows "unat (a + b) = unat a + unat b"
  using assms by (simp add: unat_add_lem [THEN iffD1])

lemma uint_add_less_mono:
  fixes a b c :: uint
  assumes "unat a + unat b < 2 ^ 64" and "a + b < c"
  shows "a \<le> c"
  using assms
  by (simp add: word_less_nat_alt word_le_nat_alt uint_add_no_wrap del: word_less_eq_iff_unsigned)

lemma uint_le_add:
  fixes a b :: uint
  assumes "unat a + unat b < 2 ^ 64"
  shows "a \<le> a + b"
  using assms by (simp add: word_le_nat_alt uint_add_no_wrap)

lemma Max_uint_ge2: "b \<le> Max_uint a b"
  by (auto simp: Max_uint_def)

lemma float64_of_uint_nonneg: "0 \<le> float64_of_uint u"
  unfolding float64_of_uint_def by (rule of_nat_0_le_iff)

lemma float64_of_uint_pos: "u \<noteq> 0 \<Longrightarrow> 0 < float64_of_uint u"
  unfolding float64_of_uint_def of_nat_0_less_iff by (simp add: unat_gt_0)

lemma fdiv_gt0: "a > 0 \<Longrightarrow> b \<ge> 0 \<Longrightarrow> f64_gt0 (fdiv a b)"
  by (simp add: fdiv_def)

subsection \<open>Silence\<close>

lemma foldl_energy_zero:
  "\<forall>v \<in> set f. v = 0 \<Longrightarrow> foldl (\<lambda>energy v. energy + v * v) (0::real) f = 0"
  by (induction f) auto

lemma LocalEnergyDB_zero: "\<forall>v \<in> set f. v = 0 \<Longrightarrow> LocalEnergyDB f = -90"
  by (simp add: LocalEnergyDB_def foldl_energy_zero)

lemma not_silent_unit: "\<not> SilenceDetection [1] (-70)"
  by (simp add: SilenceDetection_def LocalEnergyDB_def)

subsection \<open>Acceptance of a reported peak\<close>





subsection \<open>The two counters\<close>

lemma Reset_counters: "TotalFrames (Reset o1) = 0 \<and> LastOnset (Reset o1) = 0"
  by (simp add: Reset_def)

lemma Onset_Do_TotalFrames:
  "TotalFrames (snd (Onset_Do o1 input pp)) = TotalFrames o1 + HopSize o1"
  by (auto simp: Onset_Do_def Let_def split: if_splits)

lemma Onset_Do_TotalFrames_pos:
  assumes "HopSize o1 \<noteq> 0" and "unat (TotalFrames o1) + unat (HopSize o1) < 2 ^ 64"
  shows "TotalFrames (snd (Onset_Do o1 input pp)) \<noteq> 0"
proof -
  have "unat (TotalFrames o1 + HopSize o1) = unat (TotalFrames o1) + unat (HopSize o1)"
    by (rule uint_add_no_wrap [OF assms(2)])
  moreover have "0 < unat (HopSize o1)"
    using assms(1) by (simp add: unat_gt_0)
  ultimately have "0 < unat (TotalFrames (snd (Onset_Do o1 input pp)))"
    by (simp add: Onset_Do_TotalFrames)
  then show ?thesis by (simp add: unat_gt_0)
qed

text \<open>
  The three ways in which a call of \<^verbatim>\<open>Onset.Do\<close> treats \<open>LastOnset\<close>: a reported peak is
  accepted, an onset is forced at the beginning of the stream, or the counter is kept.
\<close>

lemma Onset_Do_LastOnset_cases:
  obtains
    (accepted) cand where
      "LastOnset o1 + Minioi o1 < cand"
      "fst (Onset_Do o1 input pp) = Finite pp" "0 < pp"
      "LastOnset (snd (Onset_Do o1 input pp)) = Max_uint (Delay o1) cand"
  | (forced)
      "TotalFrames o1 \<le> Delay o1"
      "TotalFrames o1 = 0 \<or> LastOnset o1 + Minioi o1 < TotalFrames o1"
      "fst (Onset_Do o1 input pp) = fdiv (float64_of_uint (Delay o1)) (float64_of_uint (HopSize o1))"
      "LastOnset (snd (Onset_Do o1 input pp)) = TotalFrames o1 + Delay o1"
  | (kept)
      "LastOnset (snd (Onset_Do o1 input pp)) = LastOnset o1"
proof (cases "pp > 0")
  case True
  let ?c = "TotalFrames o1
            + word_of_int (Round (fl64 (pp * fl64 (float64_of_uint (HopSize o1)))))"
  show ?thesis
  proof (cases "\<not> SilenceDetection input (Silence o1) \<and> LastOnset o1 + Minioi o1 < ?c
                 \<and> \<not> (LastOnset o1 > 0 \<and> Delay o1 > ?c)")
    case acc: True
    show ?thesis
    proof (rule accepted [of ?c])
      show "LastOnset o1 + Minioi o1 < ?c" using acc by simp
      show "fst (Onset_Do o1 input pp) = Finite pp"
        using True acc by (auto simp: Onset_Do_def Let_def)
      show "0 < pp" by (rule True)
      show "LastOnset (snd (Onset_Do o1 input pp)) = Max_uint (Delay o1) ?c"
        using True acc by (auto simp: Onset_Do_def Let_def)
    qed
  next
    case False
    with True have "LastOnset (snd (Onset_Do o1 input pp)) = LastOnset o1"
      by (auto simp: Onset_Do_def Let_def)
    then show ?thesis by (rule kept)
  qed
next
  case nopeak: False
  show ?thesis
  proof (cases "TotalFrames o1 \<le> Delay o1 \<and> \<not> SilenceDetection input (Silence o1)
                 \<and> (TotalFrames o1 = 0 \<or> LastOnset o1 + Minioi o1 < TotalFrames o1)")
    case f: True
    show ?thesis
    proof (rule forced)
      show "TotalFrames o1 \<le> Delay o1" using f by simp
      show "TotalFrames o1 = 0 \<or> LastOnset o1 + Minioi o1 < TotalFrames o1" using f by simp
      show "fst (Onset_Do o1 input pp)
          = fdiv (float64_of_uint (Delay o1)) (float64_of_uint (HopSize o1))"
        using nopeak f by (auto simp: Onset_Do_def Let_def)
      show "LastOnset (snd (Onset_Do o1 input pp)) = TotalFrames o1 + Delay o1"
        using nopeak f by (auto simp: Onset_Do_def Let_def)
    qed
  next
    case False
    with nopeak have "LastOnset (snd (Onset_Do o1 input pp)) = LastOnset o1"
      by (auto simp: Onset_Do_def Let_def)
    then show ?thesis by (rule kept)
  qed
qed

text \<open>
  A detector that has processed no sample has recorded no onset: \<^verbatim>\<open>Reset\<close> zeroes both
  counters, and a call of \<^verbatim>\<open>Onset.Do\<close> with a positive hop size leaves \<open>TotalFrames\<close>
  positive as long as the 64-bit counter has not wrapped.  In such a state \<open>LastOnset\<close>
  changes only in a call that emits a signal greater than zero.
\<close>

lemma Onset_Do_LastOnset_changes:
  assumes inv: "TotalFrames o1 = 0 \<longrightarrow> LastOnset o1 = 0"
      and ch: "LastOnset (snd (Onset_Do o1 input pp)) \<noteq> LastOnset o1"
  shows "f64_gt0 (fst (Onset_Do o1 input pp))"
proof (cases rule: Onset_Do_LastOnset_cases [of o1 input pp])
  case (accepted cand)
  then show ?thesis by simp
next
  case forced
  have "Delay o1 \<noteq> 0"
  proof
    assume d0: "Delay o1 = 0"
    with forced(1) have "TotalFrames o1 = 0" by simp
    with inv d0 forced(4) ch show False by simp
  qed
  then have "0 < float64_of_uint (Delay o1)"
    by (rule float64_of_uint_pos)
  moreover have "0 \<le> float64_of_uint (HopSize o1)"
    by (rule float64_of_uint_nonneg)
  ultimately show ?thesis unfolding forced(3) by (rule fdiv_gt0)
next
  case kept
  with ch show ?thesis by simp
qed

text \<open>
  If moreover neither of the sums \<open>LastOnset + Minioi\<close> and \<open>TotalFrames + Delay\<close> exceeds
  the 64-bit range, \<open>LastOnset\<close> does not decrease.
\<close>

lemma Onset_Do_LastOnset_mono:
  assumes inv: "TotalFrames o1 = 0 \<longrightarrow> LastOnset o1 = 0"
      and nw1: "unat (LastOnset o1) + unat (Minioi o1) < 2 ^ 64"
      and nw2: "unat (TotalFrames o1) + unat (Delay o1) < 2 ^ 64"
  shows "LastOnset o1 \<le> LastOnset (snd (Onset_Do o1 input pp))"
proof (cases rule: Onset_Do_LastOnset_cases [of o1 input pp])
  case (accepted cand)
  have "LastOnset o1 \<le> cand"
    using nw1 accepted(1) by (rule uint_add_less_mono)
  also have "cand \<le> Max_uint (Delay o1) cand"
    by (rule Max_uint_ge2)
  finally show ?thesis by (simp add: accepted(4))
next
  case forced
  show ?thesis
  proof (cases "TotalFrames o1 = 0")
    case True
    with inv show ?thesis by simp
  next
    case False
    with forced(2) have "LastOnset o1 + Minioi o1 < TotalFrames o1" by simp
    with nw1 have "LastOnset o1 \<le> TotalFrames o1"
      by (rule uint_add_less_mono)
    also have "\<dots> \<le> TotalFrames o1 + Delay o1"
      by (rule uint_le_add [OF nw2])
    finally show ?thesis by (simp add: forced(4))
  qed
next
  case kept
  then show ?thesis by simp
qed

text \<open>
  Claim C4, as stated, fails: \<open>LastOnset\<close> can decrease in a call that accepts an
  onset.  With a minimum inter-onset interval of \<open>2\<^sup>6\<^sup>4 - 2000\<close> samples (set by
  \<^verbatim>\<open>SetMinioi\<close>) the sum \<open>LastOnset + Minioi\<close> wraps around to \<open>124\<close>, the peak at sample
  \<open>1536\<close> passes the test, and \<open>LastOnset\<close> goes from \<open>2124\<close> back to \<open>1536\<close>.
\<close>

theorem Onset_Do_LastOnset_decreases:
  "Onset_Do
     \<lparr>Silence = -70, Minioi = 18446744073709549616, Delay = 0, Samplerate = 44100,
      HopSize = 256, TotalFrames = 1280, LastOnset = 2124, ApplyCompression = True,
      LambdaCompression = 1, ApplyAWhitening = False\<rparr> [1] 1
   = (Finite 1,
      \<lparr>Silence = -70, Minioi = 18446744073709549616, Delay = 0, Samplerate = 44100,
       HopSize = 256, TotalFrames = 1536, LastOnset = 1536, ApplyCompression = True,
       LambdaCompression = 1, ApplyAWhitening = False\<rparr>)"
proof -
  have c: "Round (fl64 (fl64 256)) = 256" by code_simp
  show ?thesis
    using not_silent_unit
    by (simp add: Onset_Do_def Let_def float64_of_uint_def Max_uint_def c)
qed

text \<open>
  The other two conditions of the amended claim are needed as well.  When the sum
  \<open>TotalFrames + Delay\<close> of a forced onset wraps around, \<open>LastOnset\<close> goes from \<open>100\<close> to
  \<open>0\<close>; and in a state with \<open>TotalFrames = 0\<close> but \<open>LastOnset = 5\<close> a forced onset with a
  delay of zero sets \<open>LastOnset\<close> to \<open>0\<close> and emits \<open>0\<close>.
\<close>

lemma Onset_Do_forced_wraps:
  "Onset_Do
     \<lparr>Silence = -70, Minioi = 0, Delay = 18446744073709551360, Samplerate = 44100,
      HopSize = 256, TotalFrames = 256, LastOnset = 100, ApplyCompression = True,
      LambdaCompression = 1, ApplyAWhitening = False\<rparr> [1] 0
   = (Finite (18446744073709551360 / 256),
      \<lparr>Silence = -70, Minioi = 0, Delay = 18446744073709551360, Samplerate = 44100,
       HopSize = 256, TotalFrames = 512, LastOnset = 0, ApplyCompression = True,
       LambdaCompression = 1, ApplyAWhitening = False\<rparr>)"
  using not_silent_unit
  by (simp add: Onset_Do_def float64_of_uint_def fdiv_def word_le_nat_alt)

lemma Onset_Do_forced_unrecorded:
  "Onset_Do
     \<lparr>Silence = -70, Minioi = 2205, Delay = 0, Samplerate = 44100,
      HopSize = 256, TotalFrames = 0, LastOnset = 5, ApplyCompression = True,
      LambdaCompression = 1, ApplyAWhitening = False\<rparr> [1] 0
   = (Finite 0,
      \<lparr>Silence = -70, Minioi = 2205, Delay = 0, Samplerate = 44100,
       HopSize = 256, TotalFrames = 256, LastOnset = 0, ApplyCompression = True,
       LambdaCompression = 1, ApplyAWhitening = False\<rparr>)"
  using not_silent_unit
  by (simp add: Onset_Do_def float64_of_uint_def fdiv_def)

text \<open>
  Claim C4, amended.  Every call of \<^verbatim>\<open>Onset.Do\<close> adds \<open>HopSize\<close> to \<open>TotalFrames\<close> (the
  \<^verbatim>\<open>uint\<close> addition of the code), whatever branch is taken.  In a state that records no
  onset while no sample has been processed (\<open>LastOnset = 0\<close> whenever \<open>TotalFrames = 0\<close>),
  \<open>LastOnset\<close> changes only in a call that emits a signal greater than zero; and if
  moreover neither \<open>LastOnset + Minioi\<close> nor \<open>TotalFrames + Delay\<close> exceeds the 64-bit
  range, \<open>LastOnset\<close> does not decrease in that call.
\<close>

theorem Onset_Do_counters:
  "TotalFrames (snd (Onset_Do o1 input pp)) = TotalFrames o1 + HopSize o1
   \<and> ((TotalFrames o1 = 0 \<longrightarrow> LastOnset o1 = 0) \<longrightarrow>
        (LastOnset (snd (Onset_Do o1 input pp)) \<noteq> LastOnset o1 \<longrightarrow>
           f64_gt0 (fst (Onset_Do o1 input pp)))
        \<and> (unat (LastOnset o1) + unat (Minioi o1) < 2 ^ 64
             \<and> unat (TotalFrames o1) + unat (Delay o1) < 2 ^ 64 \<longrightarrow>
           LastOnset o1 \<le> LastOnset (snd (Onset_Do o1 input pp))))"
  using Onset_Do_TotalFrames [of o1 input pp]
    Onset_Do_LastOnset_changes [of o1 input pp]
    Onset_Do_LastOnset_mono [of o1 input pp]
  by blast

theorem Onset_Do_counters_witness:
  "LastOnset hfc_state = 0
   \<and> unat (LastOnset hfc_state) + unat (Minioi hfc_state) < 2 ^ 64
   \<and> unat (TotalFrames hfc_state) + unat (Delay hfc_state) < 2 ^ 64
   \<and> TotalFrames (snd (Onset_Do hfc_state [1] 1)) = 2816
   \<and> LastOnset (snd (Onset_Do hfc_state [1] 1)) \<noteq> LastOnset hfc_state
   \<and> f64_gt0 (fst (Onset_Do hfc_state [1] 1))
   \<and> LastOnset hfc_state \<le> LastOnset (snd (Onset_Do hfc_state [1] 1))"
proof -
  have c: "Round (fl64 (fl64 256)) = 256" by code_simp
  have ch: "LastOnset (snd (Onset_Do hfc_state [1] 1)) \<noteq> LastOnset hfc_state"
    using not_silent_unit
    by (simp add: Onset_Do_def Let_def hfc_state_def float64_of_uint_def Max_uint_def c)
  have pre: "LastOnset hfc_state = 0
       \<and> unat (LastOnset hfc_state) + unat (Minioi hfc_state) < 2 ^ 64
       \<and> unat (TotalFrames hfc_state) + unat (Delay hfc_state) < 2 ^ 64"
    by (simp add: hfc_state_def)
  with ch Onset_Do_counters [of hfc_state "[1]" 1] show ?thesis
    by (simp add: hfc_state_def)
qed

subsection \<open>Compression setting\<close>

text \<open>
  Claim C9.  \<^verbatim>\<open>SetCompression\<close> with a negative \<open>lambda\<close> returns the detector
  unchanged (in particular the stored lambda and the enabled flag); with
  \<open>lambda \<ge> 0\<close> it stores \<open>lambda\<close> and enables compression exactly when \<open>lambda > 0\<close>,
  changing nothing else.  The function has no failing path.
\<close>

theorem SetCompression_spec:
  "(lambda < 0 \<longrightarrow> SetCompression o1 lambda = o1)
   \<and> (0 \<le> lambda \<longrightarrow>
        SetCompression o1 lambda
          = o1\<lparr>LambdaCompression := lambda, ApplyCompression := (lambda > 0)\<rparr>)"
  by (simp add: SetCompression_def)

theorem SetCompression_spec_witness:
  "SetCompression hfc_state (-1) = hfc_state
   \<and> LambdaCompression (SetCompression hfc_state 0.02) = 0.02
   \<and> ApplyCompression (SetCompression hfc_state 0.02)
   \<and> \<not> ApplyCompression (SetCompression hfc_state 0)"
  using SetCompression_spec [of "-1" hfc_state] SetCompression_spec [of "0.02" hfc_state]
    SetCompression_spec [of 0 hfc_state]
  by simp

subsection \<open>Silent hops\<close>

text \<open>
  Claim C10.  On a buffer whose samples are all zero \<^verbatim>\<open>LocalEnergyDB\<close> returns \<open>-90\<close>;
  \<^verbatim>\<open>SilenceDetection\<close> then holds exactly for the thresholds above \<open>-90\<close>; and with the
  default silence threshold \<open>-70\<close>, \<^verbatim>\<open>Onset.Do\<close> discards a reported peak \<open>p > 0\<close>: it
  emits \<open>0\<close> and only advances \<open>TotalFrames\<close>.
\<close>

theorem silent_hop_discarded:
  assumes "\<forall>v \<in> set input. v = 0"
  shows "LocalEnergyDB input = -90.0
       \<and> (\<forall>threshold. SilenceDetection input threshold \<longleftrightarrow> -90 < threshold)
       \<and> (\<forall>o1 p. Silence o1 = -70 \<and> p > 0 \<longrightarrow>
            Onset_Do o1 input p = (Finite 0, o1\<lparr>TotalFrames := TotalFrames o1 + HopSize o1\<rparr>))"
proof -
  have db: "LocalEnergyDB input = -90"
    using assms by (rule LocalEnergyDB_zero)
  then have sil: "SilenceDetection input threshold \<longleftrightarrow> -90 < threshold" for threshold
    by (simp add: SilenceDetection_def)
  have "Onset_Do o1 input p = (Finite 0, o1\<lparr>TotalFrames := TotalFrames o1 + HopSize o1\<rparr>)"
    if "Silence o1 = -70" and "p > 0" for o1 p
    using that sil [of "-70"] by (simp add: Onset_Do_def)
  with db sil show ?thesis by simp
qed

theorem silent_hop_discarded_witness:
  "LocalEnergyDB [0, 0, 0] = -90
   \<and> SilenceDetection [0, 0, 0] (-70)
   \<and> \<not> SilenceDetection [0, 0, 0] (-90)
   \<and> Onset_Do hfc_state [0, 0, 0] 1 = (Finite 0, hfc_state\<lparr>TotalFrames := 2816\<rparr>)"
proof -
  have z: "\<forall>v \<in> set [0, 0, 0 :: real]. v = 0" by simp
  have "Silence hfc_state = -70 \<and> (0::real) < 1" by (simp add: hfc_state_def)
  with silent_hop_discarded [OF z] show ?thesis
    by (simp add: hfc_state_def)
qed

section \<open>Properties of the filter\<close>

subsection \<open>Totality for a positive order\<close>

text \<open>
  A filter is well formed when its order is positive and its coefficient and history
  slices have the length \<open>Order\<close>, as \<^verbatim>\<open>NewFilter\<close> builds them.
\<close>

definition filter_wf :: "Filter \<Rightarrow> bool" where
  "filter_wf f \<longleftrightarrow>
     0 < Order f \<and> length (A f) = Order f \<and> length (B f) = Order f
     \<and> length (X f) = Order f \<and> length (Y f) = Order f"

lemma NewFilter_wf:
  "0 < order \<Longrightarrow> \<exists>f. NewFilter order = Some f \<and> filter_wf f \<and> Order f = order"
  by (simp add: NewFilter_def store_def filter_wf_def)

lemma apply_step_wf:
  assumes "filter_wf f" "l < Order f"
  shows "\<exists>f'. apply_step l f = Some f' \<and> filter_wf f' \<and> Order f' = Order f"
proof -
  have "l < length (B f)" "l < length (X f)" "l < length (A f)" "l < length (Y f)"
    "0 < length (Y f)"
    using assms by (simp_all add: filter_wf_def)
  then show ?thesis
    using assms(1) by (simp add: apply_step_def load_def store_def filter_wf_def)
qed

lemma apply_loop_wf:
  assumes "filter_wf f"
  shows "\<exists>f'. for_range 1 (Order f) apply_step f = Some f' \<and> filter_wf f' \<and> Order f' = Order f"
proof -
  have "\<exists>f'. for_range 1 (Order f) apply_step f = Some f'
          \<and> (\<lambda>j g. filter_wf g \<and> Order g = Order f) (Order f) f'"
  proof (rule for_range_rule [where I = "\<lambda>j g. filter_wf g \<and> Order g = Order f"])
    show "1 \<le> Order f" using assms by (simp add: filter_wf_def)
    show "filter_wf f \<and> Order f = Order f" using assms by simp
    fix j g
    assume "1 \<le> j" and "j < Order f" and "filter_wf g \<and> Order g = Order f"
    then show "\<exists>g'. apply_step j g = Some g' \<and> filter_wf g' \<and> Order g' = Order f"
      using apply_step_wf [of g j] by auto
  qed
  then show ?thesis by simp
qed

lemma shift_loop_wf:
  assumes "filter_wf f" "l < Order f"
  shows "\<exists>f'. shift_loop l f = Some f' \<and> filter_wf f' \<and> Order f' = Order f"
  using assms
proof (induction l arbitrary: f)
  case 0
  then show ?case by simp
next
  case (Suc l)
  define g where "g = f\<lparr>X := (X f)[Suc l := X f ! l], Y := (Y f)[Suc l := Y f ! l]\<rparr>"
  have g: "filter_wf g" "l < Order g" "Order g = Order f"
    using Suc.prems by (simp_all add: filter_wf_def g_def)
  have b: "l < length (X f)" "Suc l < length (X f)" "l < length (Y f)" "Suc l < length (Y f)"
    using Suc.prems by (simp_all add: filter_wf_def)
  then have "shift_loop (Suc l) f = shift_loop l g"
    by (simp add: load_def store_def g_def)
  with Suc.IH [OF g(1,2)] g(3) show ?case by simp
qed

lemma Do_step_wf:
  fixes inp :: Fvec
  assumes "filter_wf f" "j < length inp"
  shows "\<exists>f' inp'. Do_step j (f, inp) = Some (f', inp') \<and> filter_wf f' \<and> Order f' = Order f
           \<and> length inp' = length inp"
proof -
  define g where "g = f\<lparr>X := (X f)[0 := inp ! j], Y := (Y f)[0 := B f ! 0 * inp ! j]\<rparr>"
  have b: "0 < length (X f)" "0 < length (B f)" "0 < length (Y f)"
    using assms(1) by (simp_all add: filter_wf_def)
  have g: "filter_wf g" "Order g = Order f"
    using assms(1) by (simp_all add: filter_wf_def g_def)
  from apply_loop_wf [OF g(1)] g(2)
  obtain f1 where f1: "for_range 1 (Order f) apply_step g = Some f1" "filter_wf f1"
    "Order f1 = Order f"
    by auto
  have o1: "Order f1 \<noteq> 0" "0 < length (Y f1)" "Order f1 - 1 < Order f1"
    using f1(2) by (simp_all add: filter_wf_def)
  from shift_loop_wf [OF f1(2) o1(3)] f1(3)
  obtain f2 where f2: "shift_loop (Order f1 - 1) f1 = Some f2" "filter_wf f2" "Order f2 = Order f"
    by auto
  have "Do_step j (f, inp) = Some (f2, inp[j := Y f1 ! 0])"
    using b assms(2) f1(1) o1(1,2) f2(1)
    by (simp add: Do_step_def load_def store_def g_def [symmetric])
  with f2 show ?thesis by simp
qed

lemma Filter_Do_total:
  fixes inp :: Fvec
  assumes "filter_wf f"
  shows "\<exists>f' out. Filter_Do f inp = Some (f', out) \<and> filter_wf f' \<and> Order f' = Order f
           \<and> length out = length inp"
proof -
  have "\<exists>s'. for_range 0 (length inp) Do_step (f, inp) = Some s'
          \<and> (\<lambda>j s. filter_wf (fst s) \<and> Order (fst s) = Order f \<and> length (snd s) = length inp)
               (length inp) s'"
  proof (rule for_range_rule [where I = "\<lambda>j s. filter_wf (fst s) \<and> Order (fst s) = Order f
      \<and> length (snd s) = length inp"])
    fix j and s :: "Filter \<times> Fvec"
    assume "0 \<le> j" and "j < length inp"
      and "filter_wf (fst s) \<and> Order (fst s) = Order f \<and> length (snd s) = length inp"
    then show "\<exists>s'. Do_step j s = Some s'
        \<and> filter_wf (fst s') \<and> Order (fst s') = Order f \<and> length (snd s') = length inp"
      using Do_step_wf [of "fst s" j "snd s"] by (cases s) auto
  qed (use assms in simp_all)
  then show ?thesis by (auto simp: Filter_Do_def)
qed

lemma Filter_Reset_total:
  assumes "filter_wf f"
  shows "\<exists>f'. Filter_Reset f = Some f' \<and> filter_wf f' \<and> Order f' = Order f"
proof -
  have "\<exists>f'. for_range 0 (length (X f)) Reset_step f = Some f'
          \<and> (\<lambda>j g. filter_wf g \<and> Order g = Order f) (length (X f)) f'"
  proof (rule for_range_rule [where I = "\<lambda>j g. filter_wf g \<and> Order g = Order f"])
    fix j g
    assume "0 \<le> j" and "j < length (X f)" and "filter_wf g \<and> Order g = Order f"
    with assms show "\<exists>g'. Reset_step j g = Some g' \<and> filter_wf g' \<and> Order g' = Order f"
      by (simp add: Reset_step_def store_def filter_wf_def)
  qed (use assms in simp_all)
  then show ?thesis by (simp add: Filter_Reset_def)
qed

lemma mirror_loop_total:
  fixes src dst :: Fvec
  assumes "len \<le> length src" "len \<le> length dst"
  shows "\<exists>out. for_range 0 len (mirror_step src len) dst = Some out \<and> length out = length dst"
proof -
  have "\<exists>out. for_range 0 len (mirror_step src len) dst = Some out
          \<and> (\<lambda>j (d::Fvec). length d = length dst) len out"
  proof (rule for_range_rule [where I = "\<lambda>j (d::Fvec). length d = length dst"])
    fix j and d :: Fvec
    assume "0 \<le> j" and "j < len" and "length d = length dst"
    with assms show "\<exists>d'. mirror_step src len j d = Some d' \<and> length d' = length dst"
      by (simp add: mirror_step_def load_def store_def)
  qed simp_all
  then show ?thesis by simp
qed

lemma invert_loop_total:
  fixes src dst :: Fvec
  assumes "len \<le> length src" "len \<le> length dst"
  shows "\<exists>out. for_range 0 len (invert_step src len) dst = Some out \<and> length out = length dst"
proof -
  have "\<exists>out. for_range 0 len (invert_step src len) dst = Some out
          \<and> (\<lambda>j (d::Fvec). length d = length dst) len out"
  proof (rule for_range_rule [where I = "\<lambda>j (d::Fvec). length d = length dst"])
    fix j and d :: Fvec
    assume "0 \<le> j" and "j < len" and "length d = length dst"
    with assms show "\<exists>d'. invert_step src len j d = Some d' \<and> length d' = length dst"
      by (simp add: invert_step_def load_def store_def)
  qed simp_all
  then show ?thesis by simp
qed

text \<open>
  Claim C5, as stated, fails: \<^verbatim>\<open>NewFilter\<close> writes \<^verbatim>\<open>f.A[0]\<close> into a slice of length
  \<open>order\<close>, so for order 0 the constructor does not return a filter (the write is out
  of range).
\<close>

theorem NewFilter_order_0_fails: "NewFilter 0 = None"
  by (simp add: NewFilter_def store_def)

text \<open>\<^verbatim>\<open>DoFiltFilt\<close> needs a scratch buffer that is not shorter than the buffer.\<close>

lemma DoFiltFilt_short_scratch:
  "\<exists>f. NewFilter 1 = Some f \<and> DoFiltFilt f [1, 2] [0] = None"
  by (simp add: NewFilter_def DoFiltFilt_def Filter_Do_def Filter_Reset_def Do_step_def
      Reset_step_def mirror_step_def for_range_def load_def store_def)

text \<open>
  Claim C5, amended.  For every order of at least 1, \<^verbatim>\<open>NewFilter\<close> returns a filter, and
  on that filter and any finite buffer \<^verbatim>\<open>Filter.Do\<close> and \<^verbatim>\<open>Filter.Reset\<close> do not fail,
  \<^verbatim>\<open>Do\<close> keeps the length of the buffer, and \<^verbatim>\<open>DoFiltFilt\<close> does not fail either when
  its scratch buffer is at least as long as the buffer.
\<close>

theorem filter_operations_total:
  fixes inp tmp :: Fvec
  assumes "0 < order"
  shows "\<exists>f. NewFilter order = Some f
           \<and> (\<exists>f' out. Filter_Do f inp = Some (f', out) \<and> length out = length inp)
           \<and> (\<exists>f'. Filter_Reset f = Some f')
           \<and> (length inp \<le> length tmp \<longrightarrow>
                (\<exists>f' out tmp'. DoFiltFilt f inp tmp = Some (f', out, tmp')
                   \<and> length out = length inp))"
proof -
  from NewFilter_wf [OF assms] obtain f where f: "NewFilter order = Some f" "filter_wf f"
    by blast
  have ff: "\<exists>f' out tmp'. DoFiltFilt f inp tmp = Some (f', out, tmp') \<and> length out = length inp"
    if len: "length inp \<le> length tmp"
  proof -
    from Filter_Do_total [OF f(2), of inp]
    obtain f1 in1 where f1: "Filter_Do f inp = Some (f1, in1)" "filter_wf f1"
      "length in1 = length inp"
      by blast
    from Filter_Reset_total [OF f1(2)]
    obtain f2 where f2: "Filter_Reset f1 = Some f2" "filter_wf f2" by blast
    from mirror_loop_total [of "length inp" in1 tmp] f1(3) len
    obtain tmp1 where t1: "for_range 0 (length inp) (mirror_step in1 (length inp)) tmp = Some tmp1"
      "length tmp1 = length tmp"
      by auto
    from Filter_Do_total [OF f2(2), of tmp1]
    obtain f3 tmp2 where f3: "Filter_Do f2 tmp1 = Some (f3, tmp2)" "filter_wf f3"
      "length tmp2 = length tmp1"
      by blast
    from Filter_Reset_total [OF f3(2)]
    obtain f4 where f4: "Filter_Reset f3 = Some f4" by blast
    from invert_loop_total [of "length inp" tmp2 in1] f1(3) f3(3) t1(2) len
    obtain in2 where i2: "for_range 0 (length inp) (invert_step tmp2 (length inp)) in1 = Some in2"
      "length in2 = length in1"
      by auto
    have "DoFiltFilt f inp tmp = Some (f4, in2, tmp2)"
      unfolding DoFiltFilt_def Let_def by (simp add: f1 f2 t1 f3 f4 i2)
    with i2(2) f1(3) show ?thesis by simp
  qed
  from Filter_Do_total [OF f(2), of inp] Filter_Reset_total [OF f(2)] f(1) ff
  show ?thesis by blast
qed

theorem filter_operations_total_witness:
  "\<exists>f. NewFilter 3 = Some f
      \<and> (\<exists>f' out. Filter_Do f [1, 2] = Some (f', out) \<and> length out = 2)
      \<and> (\<exists>f'. Filter_Reset f = Some f')
      \<and> (\<exists>f' out tmp'. DoFiltFilt f [1, 2] [0, 0] = Some (f', out, tmp') \<and> length out = 2)"
  using filter_operations_total [of 3 "[1, 2]" "[0, 0]"] by (simp add: numeral_2_eq_2)

subsection \<open>The identity filter\<close>

text \<open>The filters that \<^verbatim>\<open>NewFilter(1)\<close> builds, whatever their history holds.\<close>

definition ident1 :: "Filter \<Rightarrow> bool" where
  "ident1 f \<longleftrightarrow>
     Order f = 1 \<and> A f = [1] \<and> B f = [1] \<and> length (X f) = 1 \<and> length (Y f) = 1"

lemma NewFilter_1: "NewFilter 1 = Some \<lparr>Order = 1, A = [1], B = [1], X = [0], Y = [0]\<rparr>"
  by (simp add: NewFilter_def store_def)

lemma Do_step_ident1:
  assumes "ident1 f" and "j < length inp"
  shows "\<exists>f'. Do_step j (f, inp) = Some (f', inp) \<and> ident1 f'"
  using assms
  by (auto simp: ident1_def Do_step_def load_def store_def for_range_empty length_Suc_conv)

lemma Filter_Do_ident1:
  assumes "ident1 f"
  shows "\<exists>f'. Filter_Do f inp = Some (f', inp) \<and> ident1 f'"
proof -
  have "\<exists>s'. for_range 0 (length inp) Do_step (f, inp) = Some s'
          \<and> (\<lambda>j s. ident1 (fst s) \<and> snd s = inp) (length inp) s'"
  proof (rule for_range_rule [where I = "\<lambda>j s. ident1 (fst s) \<and> snd s = inp"])
    fix j s
    assume "j < length inp" and "ident1 (fst s) \<and> snd s = inp"
    then show "\<exists>s'. Do_step j s = Some s' \<and> ident1 (fst s') \<and> snd s' = inp"
      using Do_step_ident1 [of "fst s" j inp] by (cases s) auto
  qed (use assms in simp_all)
  then show ?thesis by (auto simp: Filter_Do_def)
qed

lemma Filter_Reset_ident1:
  assumes "ident1 f"
  shows "Filter_Reset f = Some \<lparr>Order = 1, A = [1], B = [1], X = [0], Y = [0]\<rparr>"
  using assms
  by (cases f) (auto simp: ident1_def Filter_Reset_def Reset_step_def store_def for_range_def
      length_Suc_conv)

subsection \<open>Mirroring\<close>

lemma mirror_into_upto:
  assumes "k \<le> length src" and "length src \<le> length dst"
  shows "for_range 0 k (mirror_step src (length src)) dst
       = Some (map (\<lambda>i. if length src - k \<le> i \<and> i < length src
                          then src ! (length src - 1 - i) else dst ! i) [0..<length dst])"
  using assms(1)
proof (induction k)
  case 0
  have "dst = map (\<lambda>i. if length src - 0 \<le> i \<and> i < length src
                          then src ! (length src - 1 - i) else dst ! i) [0..<length dst]"
    by (intro nth_equalityI) auto
  then show ?case by (simp add: for_range_empty)
next
  case (Suc k)
  then have k: "k < length src" by simp
  let ?n = "length src"
  let ?r = "\<lambda>k. map (\<lambda>i. if ?n - k \<le> i \<and> i < ?n then src ! (?n - 1 - i) else dst ! i)
                    [0..<length dst]"
  have "(?r k)[?n - k - 1 := src ! k] = ?r (Suc k)"
    using k assms(2) by (intro nth_equalityI) (auto simp: nth_list_update)
  with Suc k assms(2) show ?case
    by (simp add: for_range_Suc mirror_step_def load_def store_def)
qed

lemma mirror_into:
  assumes "length src \<le> length dst"
  shows "for_range 0 (length src) (mirror_step src (length src)) dst
       = Some (rev src @ drop (length src) dst)"
proof -
  have "map (\<lambda>i. if i < length src then src ! (length src - 1 - i) else dst ! i) [0..<length dst]
      = rev src @ drop (length src) dst"
    using assms by (intro nth_equalityI) (auto simp: nth_append rev_nth)
  then show ?thesis
    using mirror_into_upto [OF order_refl assms] by simp
qed

lemma mirror_back:
  assumes "k \<le> length d" and "length d \<le> length t"
    and "\<And>j. j < length d \<Longrightarrow> t ! (length d - j - 1) = d ! j"
  shows "for_range 0 k (invert_step t (length d)) d = Some d"
  using assms(1)
proof (induction k)
  case 0
  then show ?case by (simp add: for_range_empty)
next
  case (Suc k)
  then show ?case using assms(2,3)
    by (simp add: for_range_Suc invert_step_def load_def store_def)
qed

text \<open>
  Claim C8.  With the filter that \<^verbatim>\<open>NewFilter(1)\<close> builds (\<open>B = [1]\<close>, \<open>A = [1]\<close>),
  \<^verbatim>\<open>DoFiltFilt\<close> on a buffer and a scratch buffer that is at least as long returns the
  buffer with exactly its original contents; the filter is back in its fresh state and
  the scratch buffer holds the mirrored samples.
\<close>

theorem DoFiltFilt_identity:
  assumes "length inp \<le> length tmp"
  shows "\<exists>f. NewFilter 1 = Some f
           \<and> DoFiltFilt f inp tmp = Some (f, inp, rev inp @ drop (length inp) tmp)"
proof -
  define f0 where "f0 = \<lparr>Order = 1, A = [1], B = [1], X = [0], Y = [0]\<rparr>"
  define t where "t = rev inp @ drop (length inp) tmp"
  have new: "NewFilter 1 = Some f0"
    unfolding f0_def by (rule NewFilter_1)
  have id: "ident1 f0" by (simp add: ident1_def f0_def)
  obtain f1 where f1: "Filter_Do f0 inp = Some (f1, inp)" "ident1 f1"
    using Filter_Do_ident1 [OF id] by blast
  have r1: "Filter_Reset f1 = Some f0"
    unfolding f0_def using f1(2) by (rule Filter_Reset_ident1)
  have m1: "for_range 0 (length inp) (mirror_step inp (length inp)) tmp = Some t"
    unfolding t_def using assms by (rule mirror_into)
  obtain f3 where f3: "Filter_Do f0 t = Some (f3, t)" "ident1 f3"
    using Filter_Do_ident1 [OF id] by blast
  have r3: "Filter_Reset f3 = Some f0"
    unfolding f0_def using f3(2) by (rule Filter_Reset_ident1)
  have m2: "for_range 0 (length inp) (invert_step t (length inp)) inp = Some inp"
    unfolding t_def by (rule mirror_back) (auto simp: nth_append rev_nth)
  have "DoFiltFilt f0 inp tmp = Some (f0, inp, t)"
    unfolding DoFiltFilt_def Let_def by (simp add: f1 r1 m1 f3 r3 m2)
  with new show ?thesis
    unfolding t_def by simp
qed

theorem DoFiltFilt_identity_witness:
  "\<exists>f. NewFilter 1 = Some f
      \<and> DoFiltFilt f [1, -2, 3] [0, 0, 0, 7] = Some (f, [1, -2, 3], [3, -2, 1, 7])"
  using DoFiltFilt_identity [of "[1, -2, 3]" "[0, 0, 0, 7]"] by simp

section \<open>Properties of the whitening stage\<close>

text \<open>The peak that \<^verbatim>\<open>SpectralWhitening.Do\<close> computes for bin \<open>i\<close>.\<close>

definition whitened_peak :: "SpectralWhitening \<Rightarrow> Cvec \<Rightarrow> nat \<Rightarrow> real" where
  "whitened_peak s c i = max (Norm c ! i) (max (RDecay s * PeakValues s ! i) (Floor s))"

lemma Whitening_step_inv:
  assumes "i < length (Norm c)" "i < length (PeakValues s)"
    and "length (Norm c') = length (Norm c)" "length (PeakValues s') = length (PeakValues s)"
    and "RDecay s' = RDecay s" "Floor s' = Floor s" "Phas c' = Phas c"
    and "\<forall>k<length (PeakValues s). PeakValues s' ! k
           = (if k < i then whitened_peak s c k else PeakValues s ! k)"
    and "\<forall>k<length (Norm c). Norm c' ! k =
           (if k < i \<and> whitened_peak s c k > 0 then Norm c ! k / whitened_peak s c k
            else Norm c ! k)"
  shows "\<exists>s'' c''. Whitening_step i (s', c') = Some (s'', c'')
      \<and> length (Norm c'') = length (Norm c) \<and> length (PeakValues s'') = length (PeakValues s)
      \<and> RDecay s'' = RDecay s \<and> Floor s'' = Floor s \<and> Phas c'' = Phas c
      \<and> (\<forall>k<length (PeakValues s). PeakValues s'' ! k
            = (if k < Suc i then whitened_peak s c k else PeakValues s ! k))
      \<and> (\<forall>k<length (Norm c). Norm c'' ! k =
           (if k < Suc i \<and> whitened_peak s c k > 0 then Norm c ! k / whitened_peak s c k
            else Norm c ! k))"
  using assms
  by (auto simp: Whitening_step_def load_def store_def Let_def whitened_peak_def nth_list_update
      less_Suc_eq)

lemma Whitening_Do_bins:
  "\<exists>s' c'. Whitening_Do s c = Some (s', c')
      \<and> (\<forall>k<min (length (Norm c)) (length (PeakValues s)).
             PeakValues s' ! k = whitened_peak s c k
           \<and> Norm c' ! k = (if whitened_peak s c k > 0 then Norm c ! k / whitened_peak s c k
                            else Norm c ! k))"
proof -
  let ?n = "min (length (Norm c)) (length (PeakValues s))"
  let ?I = "\<lambda>i (st :: SpectralWhitening \<times> Cvec).
      length (Norm (snd st)) = length (Norm c)
      \<and> length (PeakValues (fst st)) = length (PeakValues s)
      \<and> RDecay (fst st) = RDecay s \<and> Floor (fst st) = Floor s \<and> Phas (snd st) = Phas c
      \<and> (\<forall>k<length (PeakValues s). PeakValues (fst st) ! k
             = (if k < i then whitened_peak s c k else PeakValues s ! k))
      \<and> (\<forall>k<length (Norm c). Norm (snd st) ! k =
           (if k < i \<and> whitened_peak s c k > 0 then Norm c ! k / whitened_peak s c k
            else Norm c ! k))"
  have "\<exists>st. for_range 0 ?n Whitening_step (s, c) = Some st \<and> ?I ?n st"
  proof (rule for_range_rule [where I = ?I])
    fix j st
    assume j: "j < ?n" and I: "?I j st"
    obtain s1 c1 where st: "st = (s1, c1)" by (cases st)
    from Whitening_step_inv [of j c s c1 s1] j I
    show "\<exists>st'. Whitening_step j st = Some st' \<and> ?I (Suc j) st'"
      unfolding st by fastforce
  qed simp_all
  then obtain st where st: "for_range 0 ?n Whitening_step (s, c) = Some st" "?I ?n st"
    by blast
  have "(if length (PeakValues s) < length (Norm c) then length (PeakValues s)
         else length (Norm c)) = ?n"
    by simp
  then have run: "Whitening_Do s c = Some (fst st, snd st)"
    using st(1) unfolding Whitening_Do_def Let_def by simp
  show ?thesis
    apply (rule exI [of _ "fst st"], rule exI [of _ "snd st"])
    using run st(2) by simp
qed

text \<open>
  Claim C7, as stated, fails: the loop of \<^verbatim>\<open>SpectralWhitening.Do\<close> reads \<^verbatim>\<open>s.Floor\<close>, so a
  floor set by \<^verbatim>\<open>SetFloor\<close> changes the very next \<^verbatim>\<open>Do\<close>, before any \<^verbatim>\<open>Reset\<close>.  On a
  freshly built stage (every peak at the default floor) and a bin of magnitude one half,
  the magnitude leaves \<^verbatim>\<open>Do\<close> as \<open>1\<close>; after \<^verbatim>\<open>SetFloor(1.0)\<close>, which the detector calls for
  the \<^verbatim>\<open>specflux\<close> mode, it leaves \<^verbatim>\<open>Do\<close> as one half.
\<close>

theorem SetFloor_changes_next_Do:
  "map_option (Norm \<circ> snd) (Whitening_Do fresh_whitening half_frame) = Some [1]
   \<and> map_option (Norm \<circ> snd) (Whitening_Do (SetFloor fresh_whitening 1) half_frame)
       = Some [1 / 2]"
  by (simp add: Whitening_Do_def Whitening_step_def SetFloor_def fresh_whitening_def
      half_frame_def for_range_def load_def store_def)

text \<open>
  Claim C7, amended.  \<^verbatim>\<open>SetFloor\<close> changes the stored floor and nothing else (the tracked
  peaks, the decay and the relax time stay as they are).  The new floor is used by the
  next \<^verbatim>\<open>Reset\<close>, which sets every peak to it, and also by the next \<^verbatim>\<open>Do\<close>: that call
  does not fail, and for every bin below both lengths the peak becomes
  \<open>max(magnitude, max(decay * peak, floor))\<close> with the new floor, and the magnitude is
  divided by that peak when the peak is positive.
\<close>

theorem SetFloor_effect:
  "SetFloor s fl = s\<lparr>Floor := fl\<rparr>
   \<and> PeakValues (Whitening_Reset (SetFloor s fl)) = replicate (length (PeakValues s)) fl
   \<and> (\<exists>s' c'. Whitening_Do (SetFloor s fl) c = Some (s', c')
        \<and> (\<forall>i<min (length (Norm c)) (length (PeakValues s)).
              PeakValues s' ! i = max (Norm c ! i) (max (RDecay s * PeakValues s ! i) fl)
            \<and> Norm c' ! i = (if PeakValues s' ! i > 0 then Norm c ! i / PeakValues s' ! i
                             else Norm c ! i)))"
proof -
  have "PeakValues (Whitening_Reset (SetFloor s fl)) = replicate (length (PeakValues s)) fl"
    by (simp add: Whitening_Reset_def SetFloor_def map_replicate_const)
  moreover have "\<exists>s' c'. Whitening_Do (SetFloor s fl) c = Some (s', c')
        \<and> (\<forall>i<min (length (Norm c)) (length (PeakValues s)).
              PeakValues s' ! i = max (Norm c ! i) (max (RDecay s * PeakValues s ! i) fl)
            \<and> Norm c' ! i = (if PeakValues s' ! i > 0 then Norm c ! i / PeakValues s' ! i
                             else Norm c ! i))"
    using Whitening_Do_bins [of "SetFloor s fl" c]
    by (auto simp: SetFloor_def whitened_peak_def)
  ultimately show ?thesis by (simp add: SetFloor_def)
qed

theorem SetFloor_effect_witness:
  "Floor (SetFloor fresh_whitening 1) = 1
   \<and> PeakValues (Whitening_Reset (SetFloor fresh_whitening 1)) = [1]
   \<and> (\<exists>s' c'. Whitening_Do (SetFloor fresh_whitening 1) half_frame = Some (s', c')
        \<and> PeakValues s' ! 0 = 1 \<and> Norm c' ! 0 = 1 / 2)"
proof -
  from SetFloor_effect [of fresh_whitening 1 half_frame]
  obtain s' c' where run: "Whitening_Do (SetFloor fresh_whitening 1) half_frame = Some (s', c')"
    and bins: "\<forall>i<min (length (Norm half_frame)) (length (PeakValues fresh_whitening)).
              PeakValues s' ! i
                = max (Norm half_frame ! i)
                      (max (RDecay fresh_whitening * PeakValues fresh_whitening ! i) 1)
            \<and> Norm c' ! i = (if PeakValues s' ! i > 0 then Norm half_frame ! i / PeakValues s' ! i
                             else Norm half_frame ! i)"
    and rs: "PeakValues (Whitening_Reset (SetFloor fresh_whitening 1))
               = replicate (length (PeakValues fresh_whitening)) 1"
    by blast
  from bins have "PeakValues s' ! 0 = 1 \<and> Norm c' ! 0 = 1 / 2"
    by (simp add: fresh_whitening_def half_frame_def)
  with run rs show ?thesis
    by (auto simp: SetFloor_def fresh_whitening_def)
qed

section \<open>Properties of the descriptors\<close>

text \<open>On zeroed histories and a zero frame no descriptor changes its state or its sum.\<close>

lemma Specdesc_Do_zero:
  fixes t th n
  defines "s \<equiv> \<lparr>OnsetType = t, Threshold = th, OldMag = replicate n 0, Dev1 = replicate n 0,
                 Theta1 = replicate n 0, Theta2 = replicate n 0\<rparr>"
      and "c \<equiv> \<lparr>Norm = replicate n 0, Phas = replicate n 0\<rparr>"
  shows "Specdesc_Do s c = Some (s, Finite 0)"
proof -
  have len: "length (Norm c) = n" by (simp add: c_def)
  have "for_range 0 n (energy_step c) (s, Finite 0) = Some (s, Finite 0)"
    by (rule for_range_fixed) (simp add: energy_step_def c_def load_def)
  moreover have "for_range 0 n (hfc_step c) (s, Finite 0) = Some (s, Finite 0)"
    by (rule for_range_fixed) (simp add: hfc_step_def c_def load_def)
  moreover have "for_range 0 n (complex_step c) (s, Finite 0) = Some (s, Finite 0)"
    by (rule for_range_fixed)
      (simp add: complex_step_def c_def s_def load_def store_def replicate_update_same)
  moreover have "for_range 0 n (phase_step c) (s, Finite 0) = Some (s, Finite 0)"
    by (rule for_range_fixed)
      (simp add: phase_step_def c_def s_def load_def store_def replicate_update_same)
  moreover have "for_range 0 n (wphase_step c) (s, Finite 0) = Some (s, Finite 0)"
    by (rule for_range_fixed)
      (simp add: wphase_step_def c_def s_def load_def store_def replicate_update_same)
  moreover have "for_range 0 n (specdiff_step c) (s, Finite 0) = Some (s, Finite 0)"
    by (rule for_range_fixed)
      (simp add: specdiff_step_def c_def s_def load_def store_def replicate_update_same)
  moreover have "for_range 0 n (kl_step c) (s, Finite 0) = Some (s, Finite 0)"
    by (rule for_range_fixed)
      (simp add: kl_step_def c_def s_def load_def store_def fdiv_def replicate_update_same)
  moreover have "for_range 0 n (mkl_step c) (s, Finite 0) = Some (s, Finite 0)"
    by (rule for_range_fixed)
      (simp add: mkl_step_def c_def s_def load_def store_def fdiv_def replicate_update_same)
  moreover have "for_range 0 n (specflux_step c) (s, Finite 0) = Some (s, Finite 0)"
    by (rule for_range_fixed)
      (simp add: specflux_step_def c_def s_def load_def store_def replicate_update_same)
  moreover have "OnsetType s = t" by (simp add: s_def)
  ultimately show ?thesis
    unfolding Specdesc_Do_def Let_def len
    by (cases t) (simp_all add: clamp_NaN_def)
qed

text \<open>
  Claim C3.  For each of the nine descriptor types, two consecutive calls of
  \<^verbatim>\<open>Specdesc.Do\<close> on the all-zero frame \<^verbatim>\<open>NewCvec(size)\<close>, starting from the freshly
  built descriptor \<^verbatim>\<open>NewSpecdesc(mode, size)\<close>, do not fail, and the second call returns
  the novelty value \<open>0\<close> (and leaves the history zeroed).
\<close>

theorem Specdesc_Do_zero_twice:
  "do {
     (s1, v1) \<leftarrow> Specdesc_Do (NewSpecdesc t bufsize) (NewCvec bufsize);
     Specdesc_Do s1 (NewCvec bufsize)
   } = Some (NewSpecdesc t bufsize, Finite 0)"
proof -
  have "Specdesc_Do (NewSpecdesc t bufsize) (NewCvec bufsize)
      = Some (NewSpecdesc t bufsize, Finite 0)"
    unfolding NewSpecdesc_def NewCvec_def Let_def by (rule Specdesc_Do_zero)
  then show ?thesis by simp
qed

section \<open>Properties of the quadratic peak position\<close>

lemma uint_2_not_le_1: "\<not> (2::uint) \<le> 1"
  by (simp add: word_le_nat_alt)

text \<open>
  Claim C6, as stated, fails: at an interior position the code has no test of the
  denominator \<open>s0 - 2 s1 + s2\<close> and no fallback.  On the flat window \<open>[1, 1, 1]\<close> it
  computes \<open>0/0\<close>, and the result is NaN.
\<close>

theorem FvecQuadraticPeakPos_flat_window: "FvecQuadraticPeakPos [1, 1, 1] 1 = Some NaN"
  by (simp add: FvecQuadraticPeakPos_def load_def fdiv_def)

text \<open>
  Claim C6, amended.  For every three-element window \<open>[s0, s1, s2]\<close> and its interior
  position \<open>1\<close>, \<^verbatim>\<open>FvecQuadraticPeakPos\<close> divides by \<open>s0 - 2 s1 + s2\<close> unguarded: if the
  denominator is not zero the result is the finite number
  \<open>1 + 0.5 (s0 - s2) / (s0 - 2 s1 + s2)\<close>, and if it is zero the result is NaN or an
  infinity.  Where \<^verbatim>\<open>FvecPeakPick\<close> holds (the centre is positive and greater than both
  neighbours), which is the only case in which the peak picker calls it, the result is
  finite and less than half a position away from \<open>1\<close>.
\<close>

theorem FvecQuadraticPeakPos_interior:
  assumes "length x = 3"
  shows "(x ! 0 - 2 * x ! 1 + x ! 2 \<noteq> 0 \<longrightarrow>
            FvecQuadraticPeakPos x 1
              = Some (Finite (1 + 0.5 * (x ! 0 - x ! 2) / (x ! 0 - 2 * x ! 1 + x ! 2))))
       \<and> (x ! 0 - 2 * x ! 1 + x ! 2 = 0 \<longrightarrow>
            FvecQuadraticPeakPos x 1 \<in> {Some NaN, Some PosInf, Some NegInf})
       \<and> (FvecPeakPick x 1 = Some True \<longrightarrow>
            (\<exists>r. FvecQuadraticPeakPos x 1 = Some (Finite r) \<and> \<bar>r - 1\<bar> < 1 / 2))"
proof -
  obtain s0 s1 s2 where x: "x = [s0, s1, s2]"
    using assms by (auto simp: length_Suc_conv numeral_3_eq_3)
  have q: "FvecQuadraticPeakPos x 1
         = Some (fadd (Finite 1) (fdiv (0.5 * (s0 - s2)) (s0 - 2 * s1 + s2)))"
    by (simp add: x FvecQuadraticPeakPos_def load_def float64_of_uint_def)
  have pk: "FvecPeakPick x 1 = Some (s1 > s0 \<and> s1 > s2 \<and> s1 > 0)"
    by (auto simp: x FvecPeakPick_def load_def uint_2_not_le_1)
  have "\<bar>0.5 * (s0 - s2) / (s0 - 2 * s1 + s2)\<bar> < 1 / 2" if "s1 > s0" "s1 > s2"
  proof -
    define d where "d = s0 - 2 * s1 + s2"
    define m where "m = s0 - s2"
    have d: "d < 0" and md: "\<bar>m\<bar> < \<bar>d\<bar>"
      using that by (simp_all add: d_def m_def abs_if)
    have "0 < \<bar>d\<bar>" using d by simp
    with md have "\<bar>m\<bar> / \<bar>d\<bar> < 1"
      by (simp only: divide_less_eq_1_pos)
    then have "\<bar>m / d\<bar> < 1" by (simp only: abs_divide)
    then have "\<bar>0.5 * (m / d)\<bar> < 1 / 2" by (simp add: abs_mult)
    then show ?thesis unfolding d_def m_def by simp
  qed
  then show ?thesis
    using q pk by (auto simp: x fdiv_def)
qed

theorem FvecQuadraticPeakPos_interior_witness:
  "length [1, 3, 2 :: real] = 3
   \<and> FvecPeakPick [1, 3, 2] 1 = Some True
   \<and> FvecQuadraticPeakPos [1, 3, 2] 1 = Some (Finite (7 / 6))
   \<and> FvecQuadraticPeakPos [1, 1 / 2, 0] 1 \<in> {Some NaN, Some PosInf, Some NegInf}"
proof -
  have pk: "FvecPeakPick [1, 3, 2] 1 = Some True"
    by (simp add: FvecPeakPick_def load_def uint_2_not_le_1)
  have "FvecQuadraticPeakPos [1, 3, 2] 1 = Some (Finite (7 / 6))"
    using FvecQuadraticPeakPos_interior [of "[1, 3, 2]"] by simp
  moreover have "FvecQuadraticPeakPos [1, 1 / 2, 0] 1 \<in> {Some NaN, Some PosInf, Some NegInf}"
    using FvecQuadraticPeakPos_interior [of "[1, 1 / 2, 0]"] by simp
  ultimately show ?thesis using pk by simp
qed

section \<open>Correctness of the median selection\<close>

subsection \<open>Exchanges and permutations inside a range\<close>

text \<open>The array after \<^verbatim>\<open>arr[i], arr[j] = arr[j], arr[i]\<close> with both indices in range.\<close>

definition swapped :: "'a list \<Rightarrow> nat \<Rightarrow> nat \<Rightarrow> 'a list" where
  "swapped a i j = a[i := a ! j, j := a ! i]"

lemma length_swapped [simp]: "length (swapped a i j) = length a"
  by (simp add: swapped_def)

lemma nth_swapped:
  "i < length a \<Longrightarrow> j < length a \<Longrightarrow> k < length a \<Longrightarrow>
   swapped a i j ! k = (if k = j then a ! i else if k = i then a ! j else a ! k)"
  by (simp add: swapped_def nth_list_update)

lemma mset_swapped: "i < length a \<Longrightarrow> j < length a \<Longrightarrow> mset (swapped a i j) = mset a"
  unfolding swapped_def by (rule mset_swap)

lemma exchange_swapped: "i < length a \<Longrightarrow> j < length a \<Longrightarrow> exchange a i j = Some (swapped a i j)"
  by (simp add: exchange_def load_def store_def swapped_def)

lemma order2_swapped:
  "i < length a \<Longrightarrow> j < length a \<Longrightarrow>
   order2 a i j = Some (if a ! i > a ! j then swapped a i j else a)"
  by (simp add: order2_def load_def exchange_swapped)

text \<open>
  \<open>permuted_in l h a b\<close>: \<open>b\<close> holds the elements of \<open>a\<close>, unchanged outside the
  positions \<open>l, \<dots>, h\<close>, and every element inside them came from inside them.
\<close>

definition permuted_in :: "nat \<Rightarrow> nat \<Rightarrow> 'a list \<Rightarrow> 'a list \<Rightarrow> bool" where
  "permuted_in l h a b \<longleftrightarrow>
     length b = length a \<and> mset b = mset a
     \<and> (\<forall>i<length a. i < l \<or> h < i \<longrightarrow> b ! i = a ! i)
     \<and> (\<forall>i<length a. l \<le> i \<and> i \<le> h \<longrightarrow> (\<exists>j<length a. l \<le> j \<and> j \<le> h \<and> b ! i = a ! j))"

lemma permuted_in_refl: "permuted_in l h a a"
  by (auto simp: permuted_in_def)

lemma permuted_in_trans: "permuted_in l h a b \<Longrightarrow> permuted_in l h b c \<Longrightarrow> permuted_in l h a c"
  unfolding permuted_in_def by (elim conjE, intro conjI; simp) metis

lemma permuted_in_swapped:
  "i < length a \<Longrightarrow> j < length a \<Longrightarrow> l \<le> i \<Longrightarrow> i \<le> h \<Longrightarrow> l \<le> j \<Longrightarrow> j \<le> h \<Longrightarrow>
   permuted_in l h a (swapped a i j)"
  unfolding permuted_in_def by (auto simp: mset_swapped nth_swapped)

lemma permuted_in_mono: "permuted_in l h a b \<Longrightarrow> l' \<le> l \<Longrightarrow> h \<le> h' \<Longrightarrow> permuted_in l' h' a b"
  unfolding permuted_in_def
  apply (elim conjE, intro conjI; simp?)
  apply (intro allI impI)
  subgoal for i
    apply (cases "l \<le> i \<and> i \<le> h")
     apply (metis le_trans)
    apply (metis not_le_imp_less order_refl)
    done
  done

subsection \<open>The two scans stop at a sentinel\<close>

lemma scan_up_spec:
  assumes "low < length arr" "ll < k" "k < length arr" "arr ! low \<le> arr ! k"
  shows "\<exists>ll'. scan_up arr low ll = Some ll' \<and> ll < ll' \<and> ll' \<le> k \<and> arr ! low \<le> arr ! ll'
           \<and> (\<forall>i. ll < i \<and> i < ll' \<longrightarrow> arr ! i < arr ! low)"
  using assms
proof (induction "k - ll" arbitrary: ll)
  case 0
  then show ?case by simp
next
  case (Suc d)
  show ?case
  proof (cases "arr ! low > arr ! Suc ll")
    case False
    with Suc.prems show ?thesis
      by (subst scan_up.simps) auto
  next
    case True
    with Suc.prems have lt: "Suc ll < k" by (cases "Suc ll = k") auto
    from Suc.hyps(2) have "d = k - Suc ll" by simp
    from Suc.hyps(1) [OF this Suc.prems(1) lt Suc.prems(3,4)]
    obtain ll' where r: "scan_up arr low (Suc ll) = Some ll'" "Suc ll < ll'" "ll' \<le> k"
      "arr ! low \<le> arr ! ll'" "\<forall>i. Suc ll < i \<and> i < ll' \<longrightarrow> arr ! i < arr ! low"
      by blast
    have "\<forall>i. ll < i \<and> i < ll' \<longrightarrow> arr ! i < arr ! low"
      using r(5) True by (metis Suc_lessI)
    with r True Suc.prems show ?thesis
      by (subst scan_up.simps) auto
  qed
qed

lemma scan_down_spec:
  assumes "low < length arr" "k < hh" "hh \<le> length arr" "arr ! k \<le> arr ! low"
  shows "\<exists>hh'. scan_down arr low hh = Some hh' \<and> k \<le> hh' \<and> hh' < hh \<and> arr ! hh' \<le> arr ! low
           \<and> (\<forall>j. hh' < j \<and> j < hh \<longrightarrow> arr ! low < arr ! j)"
  using assms
proof (induction hh)
  case 0
  then show ?case by simp
next
  case (Suc h)
  show ?case
  proof (cases "arr ! h > arr ! low")
    case False
    with Suc.prems show ?thesis by auto
  next
    case True
    with Suc.prems have lt: "k < h" by (cases "k = h") auto
    from Suc.IH [OF Suc.prems(1) lt _ Suc.prems(4)] Suc.prems(3)
    obtain hh' where r: "scan_down arr low h = Some hh'" "k \<le> hh'" "hh' < h"
      "arr ! hh' \<le> arr ! low" "\<forall>j. hh' < j \<and> j < h \<longrightarrow> arr ! low < arr ! j"
      by auto
    have "\<forall>j. hh' < j \<and> j < Suc h \<longrightarrow> arr ! low < arr ! j"
      using r(5) True by (metis less_Suc_eq)
    with r True Suc.prems show ?thesis by auto
  qed
qed


subsection \<open>The partition loop\<close>

text \<open>
  At the head of the loop the elements at \<open>low + 1, \<dots>, ll\<close> are at most the pivot
  \<open>arr ! low\<close> and those at \<open>hh, \<dots>, high\<close> are at least the pivot, so each scan meets
  a sentinel before it leaves the array.
\<close>

lemma partition_loop_spec:
  assumes "low < ll" "ll \<le> hh" "hh \<le> high" "ll < high" "high < length arr"
    and "\<forall>i. low < i \<and> i \<le> ll \<longrightarrow> arr ! i \<le> arr ! low"
    and "\<forall>j. hh \<le> j \<and> j \<le> high \<longrightarrow> arr ! low \<le> arr ! j"
  shows "\<exists>arr' ll' hh'. partition_loop arr low ll hh = Some (arr', ll', hh')
           \<and> permuted_in (Suc low) high arr arr' \<and> arr' ! low = arr ! low
           \<and> hh' < ll' \<and> ll' \<le> high \<and> low \<le> hh'
           \<and> (\<forall>i. low < i \<and> i < ll' \<longrightarrow> arr' ! i \<le> arr ! low)
           \<and> (\<forall>j. hh' < j \<and> j \<le> high \<longrightarrow> arr ! low \<le> arr' ! j)"
  using assms
proof (induction "high - ll" arbitrary: arr ll hh rule: less_induct)
  case less
  note low_ll = less.prems(1) and ll_hh = less.prems(2) and hh_high = less.prems(3)
    and ll_high = less.prems(4) and high_len = less.prems(5)
    and left = less.prems(6) and right = less.prems(7)
  define k where "k = (if ll < hh then hh else Suc ll)"
  have k: "ll < k" "k \<le> high" "hh \<le> k"
    using ll_hh ll_high hh_high by (auto simp: k_def)
  with right high_len have "k < length arr" "arr ! low \<le> arr ! k" by auto
  with scan_up_spec [of low arr ll k] low_ll high_len k(1)
  obtain l1 where l1: "scan_up arr low ll = Some l1" "ll < l1" "l1 \<le> k"
    "arr ! low \<le> arr ! l1" "\<forall>i. ll < i \<and> i < l1 \<longrightarrow> arr ! i < arr ! low"
    by auto
  from scan_down_spec [of low arr low hh] low_ll ll_hh hh_high high_len
  obtain h1 where h1: "scan_down arr low hh = Some h1" "low \<le> h1" "h1 < hh"
    "arr ! h1 \<le> arr ! low" "\<forall>j. h1 < j \<and> j < hh \<longrightarrow> arr ! low < arr ! j"
    by auto
  have leftl1: "arr ! i \<le> arr ! low" if "low < i" "i < l1" for i
    using that left l1(5) by (cases "i \<le> ll") (auto simp: less_imp_le)
  have righth1: "arr ! low \<le> arr ! j" if "h1 < j" "j \<le> high" for j
    using that right h1(5) by (cases "j < hh") (auto simp: less_imp_le)
  show ?case
  proof (cases "h1 < l1")
    case True
    have "partition_loop arr low ll hh = Some (arr, l1, h1)"
      using True l1(1) h1(1) by (subst partition_loop.simps) simp
    moreover have "l1 \<le> high" using l1(3) k(2) by simp
    ultimately show ?thesis
      using True h1(2) leftl1 righth1 by (auto simp: permuted_in_refl)
  next
    case False
    then have l1h1: "l1 \<le> h1" by simp
    have b: "l1 < length arr" "h1 < length arr" "low < length arr"
      using l1h1 h1(3) hh_high high_len low_ll l1(2) by auto
    define arr1 where "arr1 = swapped arr l1 h1"
    have ex: "exchange arr l1 h1 = Some arr1"
      unfolding arr1_def using b by (simp add: exchange_swapped)
    have step: "partition_loop arr low ll hh = partition_loop arr1 low l1 h1"
      using False l1(1) h1(1) ex by (subst partition_loop.simps) simp
    have low1: "arr1 ! low = arr ! low"
      unfolding arr1_def using b low_ll l1(2) l1h1 by (simp add: nth_swapped)
    have p1: "permuted_in (Suc low) high arr arr1"
      unfolding arr1_def using b low_ll l1(2) l1h1 h1(3) hh_high
      by (intro permuted_in_swapped) auto
    have left1: "\<forall>i. low < i \<and> i \<le> l1 \<longrightarrow> arr1 ! i \<le> arr1 ! low"
    proof (intro allI impI)
      fix i assume i: "low < i \<and> i \<le> l1"
      show "arr1 ! i \<le> arr1 ! low"
      proof (cases "i = l1")
        case True
        then have "arr1 ! i = arr ! h1"
          unfolding arr1_def using b by (simp add: nth_swapped)
        with h1(4) low1 show ?thesis by simp
      next
        case False
        with i l1h1 have "arr1 ! i = arr ! i"
          unfolding arr1_def using b by (simp add: nth_swapped)
        with leftl1 [of i] i False low1 show ?thesis by simp
      qed
    qed
    have right1: "\<forall>j. h1 \<le> j \<and> j \<le> high \<longrightarrow> arr1 ! low \<le> arr1 ! j"
    proof (intro allI impI)
      fix j assume j: "h1 \<le> j \<and> j \<le> high"
      show "arr1 ! low \<le> arr1 ! j"
      proof (cases "j = h1")
        case True
        then have "arr1 ! j = arr ! l1"
          unfolding arr1_def using b by (simp add: nth_swapped)
        with l1(4) low1 show ?thesis by simp
      next
        case False
        with j l1h1 high_len have "arr1 ! j = arr ! j"
          unfolding arr1_def using b by (simp add: nth_swapped)
        with righth1 [of j] j False low1 show ?thesis by simp
      qed
    qed
    have "\<exists>arr' ll' hh'. partition_loop arr1 low l1 h1 = Some (arr', ll', hh')
           \<and> permuted_in (Suc low) high arr1 arr' \<and> arr' ! low = arr1 ! low
           \<and> hh' < ll' \<and> ll' \<le> high \<and> low \<le> hh'
           \<and> (\<forall>i. low < i \<and> i < ll' \<longrightarrow> arr' ! i \<le> arr1 ! low)
           \<and> (\<forall>j. hh' < j \<and> j \<le> high \<longrightarrow> arr1 ! low \<le> arr' ! j)"
    proof (rule less.hyps)
      show "high - l1 < high - ll" using l1(2) l1h1 h1(3) hh_high by simp
      show "low < l1" using low_ll l1(2) by simp
      show "l1 \<le> h1" by (rule l1h1)
      show "h1 \<le> high" using h1(3) hh_high by simp
      show "l1 < high" using l1h1 h1(3) hh_high by simp
      show "high < length arr1" using high_len by (simp add: arr1_def)
    qed (rule left1, rule right1)
    then obtain arr' ll' hh' where r: "partition_loop arr1 low l1 h1 = Some (arr', ll', hh')"
      "permuted_in (Suc low) high arr1 arr'" "arr' ! low = arr1 ! low"
      "hh' < ll'" "ll' \<le> high" "low \<le> hh'"
      "\<forall>i. low < i \<and> i < ll' \<longrightarrow> arr' ! i \<le> arr1 ! low"
      "\<forall>j. hh' < j \<and> j \<le> high \<longrightarrow> arr1 ! low \<le> arr' ! j"
      by blast
    from permuted_in_trans [OF p1 r(2)] r show ?thesis
      unfolding step low1 by simp
  qed
qed


lemma order2_spec:
  assumes "i < length a" "j < length a" "l \<le> i" "i \<le> h" "l \<le> j" "j \<le> h"
  shows "\<exists>a'. order2 a i j = Some a' \<and> permuted_in l h a a' \<and> a' ! i \<le> a' ! j
           \<and> (\<forall>k<length a. k \<noteq> i \<and> k \<noteq> j \<longrightarrow> a' ! k = a ! k)
           \<and> (a' ! i = a ! i \<and> a' ! j = a ! j \<or> a' ! i = a ! j \<and> a' ! j = a ! i)"
proof (cases "a ! i > a ! j")
  case True
  then have "i \<noteq> j" by auto
  with True assms show ?thesis
    by (auto simp: order2_swapped nth_swapped intro: permuted_in_swapped)
next
  case False
  with assms show ?thesis
    by (auto simp: order2_swapped permuted_in_refl)
qed

lemma pivot_partition_spec:
  assumes "Suc low < high" "high < length arr"
  shows "\<exists>arr' ll hh. pivot_partition arr low high = Some (arr', ll, hh)
           \<and> permuted_in low high arr arr' \<and> low \<le> hh \<and> hh < ll \<and> ll \<le> high
           \<and> (\<forall>i. low \<le> i \<and> i < ll \<longrightarrow> arr' ! i \<le> arr' ! hh)
           \<and> (\<forall>j. hh \<le> j \<and> j \<le> high \<longrightarrow> arr' ! hh \<le> arr' ! j)"
proof -
  define middle where "middle = (low + high) div 2"
  have m: "low < middle" "middle < high" using assms(1) by (auto simp: middle_def)
  have n: "low < length arr" "middle < length arr" "Suc low < length arr"
    using m assms by auto
  obtain a1 where a1: "order2 arr middle high = Some a1" "permuted_in low high arr a1"
    "a1 ! middle \<le> a1 ! high"
    using order2_spec [of middle arr high low high] m n assms by auto
  have l1: "length a1 = length arr" using a1(2) by (simp add: permuted_in_def)
  obtain a2 where a2: "order2 a1 low high = Some a2" "permuted_in low high a1 a2"
    "a2 ! low \<le> a2 ! high" "\<forall>k<length a1. k \<noteq> low \<and> k \<noteq> high \<longrightarrow> a2 ! k = a1 ! k"
    "a2 ! low = a1 ! low \<and> a2 ! high = a1 ! high \<or> a2 ! low = a1 ! high \<and> a2 ! high = a1 ! low"
    using order2_spec [of low a1 high low high] m n assms l1 by auto
  have l2: "length a2 = length arr" using a2(2) l1 by (simp add: permuted_in_def)
  have a2m: "a2 ! middle \<le> a2 ! high"
    using a2(3,4,5) a1(3) m n l1 by (metis less_irrefl order.trans)
  obtain a3 where a3: "order2 a2 middle low = Some a3" "permuted_in low high a2 a3"
    "a3 ! middle \<le> a3 ! low" "\<forall>k<length a2. k \<noteq> middle \<and> k \<noteq> low \<longrightarrow> a3 ! k = a2 ! k"
    "a3 ! middle = a2 ! middle \<and> a3 ! low = a2 ! low
     \<or> a3 ! middle = a2 ! low \<and> a3 ! low = a2 ! middle"
    using order2_spec [of middle a2 low low high] m n assms l2 by auto
  have l3: "length a3 = length arr" using a3(2) l2 by (simp add: permuted_in_def)
  have a3h: "a3 ! high = a2 ! high" using a3(4) m assms l2 by auto
  have a3lh: "a3 ! low \<le> a3 ! high" using a3(5) a2(3) a2m a3h by auto
  define a4 where "a4 = swapped a3 middle (Suc low)"
  have ex4: "exchange a3 middle (low + 1) = Some a4"
    unfolding a4_def using n l3 by (simp add: exchange_swapped)
  have p4: "permuted_in low high a3 a4"
    unfolding a4_def using m n l3 assms by (intro permuted_in_swapped) auto
  have l4: "length a4 = length arr" by (simp add: a4_def l3)
  have a4low: "a4 ! low = a3 ! low"
    unfolding a4_def using m n l3 by (simp add: nth_swapped)
  have a4high: "a4 ! high = a3 ! high"
    unfolding a4_def using m n l3 assms by (simp add: nth_swapped)
  have a4next: "a4 ! Suc low = a3 ! middle"
    unfolding a4_def using m n l3 by (simp add: nth_swapped)
  have "\<exists>a5 ll hh. partition_loop a4 low (Suc low) high = Some (a5, ll, hh)
           \<and> permuted_in (Suc low) high a4 a5 \<and> a5 ! low = a4 ! low
           \<and> hh < ll \<and> ll \<le> high \<and> low \<le> hh
           \<and> (\<forall>i. low < i \<and> i < ll \<longrightarrow> a5 ! i \<le> a4 ! low)
           \<and> (\<forall>j. hh < j \<and> j \<le> high \<longrightarrow> a4 ! low \<le> a5 ! j)"
  proof (rule partition_loop_spec)
    show "\<forall>i. low < i \<and> i \<le> Suc low \<longrightarrow> a4 ! i \<le> a4 ! low"
      using a4next a4low a3(3) by (auto simp: le_Suc_eq)
    show "\<forall>j. high \<le> j \<and> j \<le> high \<longrightarrow> a4 ! low \<le> a4 ! j"
      using a4low a4high a3lh by auto
  qed (use assms l4 in auto)
  then obtain a5 ll hh where a5: "partition_loop a4 low (Suc low) high = Some (a5, ll, hh)"
    "permuted_in (Suc low) high a4 a5" "a5 ! low = a4 ! low" "hh < ll" "ll \<le> high" "low \<le> hh"
    "\<forall>i. low < i \<and> i < ll \<longrightarrow> a5 ! i \<le> a4 ! low"
    "\<forall>j. hh < j \<and> j \<le> high \<longrightarrow> a4 ! low \<le> a5 ! j"
    by blast
  have l5: "length a5 = length arr" using a5(2) l4 by (simp add: permuted_in_def)
  define a6 where "a6 = swapped a5 low hh"
  have hhn: "hh < length arr" using a5(4,5) assms by simp
  have ex6: "exchange a5 low hh = Some a6"
    unfolding a6_def using n hhn l5 by (simp add: exchange_swapped)
  have p6: "permuted_in low high a5 a6"
    unfolding a6_def using n hhn l5 a5(4,5,6) by (intro permuted_in_swapped) auto
  have run: "pivot_partition arr low high = Some (a6, ll, hh)"
    using a1(1) a2(1) a3(1) ex4 a5(1) ex6
    by (simp add: pivot_partition_def middle_def [symmetric])
  have p5: "permuted_in low high a4 a5"
    using a5(2) by (rule permuted_in_mono) simp_all
  note perm = permuted_in_trans [OF permuted_in_trans [OF permuted_in_trans [OF
        permuted_in_trans [OF permuted_in_trans [OF a1(2) a2(2)] a3(2)] p4] p5] p6]
  have a6hh: "a6 ! hh = a5 ! low"
    unfolding a6_def using n hhn l5 by (simp add: nth_swapped)
  have a5hh: "a5 ! hh \<le> a5 ! low"
    using a5(3,4,6,7) by (cases "hh = low") auto
  have left: "a6 ! i \<le> a6 ! hh" if "low \<le> i" "i < ll" for i
  proof -
    have i: "i < length a5" using that a5(5) assms l5 by simp
    consider "i = hh" | "i \<noteq> hh" "i = low" | "i \<noteq> hh" "i \<noteq> low" by blast
    then show ?thesis
    proof cases
      case 1
      then show ?thesis by simp
    next
      case 2
      then have "a6 ! i = a5 ! hh"
        unfolding a6_def using n hhn l5 by (simp add: nth_swapped)
      with a5hh a6hh show ?thesis by simp
    next
      case 3
      then have "a6 ! i = a5 ! i"
        unfolding a6_def using n hhn l5 i by (simp add: nth_swapped)
      with 3 that a5(3,7) a6hh show ?thesis by auto
    qed
  qed
  have right: "a6 ! hh \<le> a6 ! j" if "hh \<le> j" "j \<le> high" for j
  proof (cases "j = hh")
    case True
    then show ?thesis by simp
  next
    case False
    with that a5(6) have "a6 ! j = a5 ! j"
      unfolding a6_def using n hhn l5 assms by (simp add: nth_swapped)
    with False that a5(3,8) a6hh show ?thesis by auto
  qed
  show ?thesis
    using run perm a5(4,5,6) left right by blast
qed


subsection \<open>Elements in their sorted place\<close>

text \<open>
  \<open>split_at arr k\<close>: no element before position \<open>k\<close> exceeds an element from \<open>k\<close> on.
  \<open>placed arr k\<close>: the element at \<open>k\<close> is at least every element before it and at most
  every element after it, so sorting would leave it at \<open>k\<close>.
\<close>

definition split_at :: "real list \<Rightarrow> nat \<Rightarrow> bool" where
  "split_at arr k \<longleftrightarrow> (\<forall>i j. i < k \<and> k \<le> j \<and> j < length arr \<longrightarrow> arr ! i \<le> arr ! j)"

definition placed :: "real list \<Rightarrow> nat \<Rightarrow> bool" where
  "placed arr k \<longleftrightarrow>
     (\<forall>i<k. arr ! i \<le> arr ! k) \<and> (\<forall>j. k < j \<and> j < length arr \<longrightarrow> arr ! k \<le> arr ! j)"

lemma placed_sort_nth:
  assumes "k < length arr" and "placed arr k"
  shows "sort arr ! k = arr ! k"
proof -
  let ?l = "take k arr" and ?r = "drop (Suc k) arr"
  have arr: "arr = ?l @ arr ! k # ?r"
    using assms(1) by (rule id_take_nth_drop)
  have l: "x \<le> arr ! k" if "x \<in> set ?l" for x
  proof -
    from that obtain i where "i < length ?l" "x = ?l ! i" by (auto simp: in_set_conv_nth)
    with assms show ?thesis by (simp add: placed_def)
  qed
  have r: "arr ! k \<le> y" if "y \<in> set ?r" for y
  proof -
    from that obtain j where "j < length ?r" "y = ?r ! j" by (auto simp: in_set_conv_nth)
    with assms show ?thesis by (simp add: placed_def)
  qed
  have srt: "sorted (sort ?l @ arr ! k # sort ?r)"
    using l r by (fastforce simp: sorted_append)
  have "mset (sort ?l @ arr ! k # sort ?r) = mset arr"
    by (subst (3) arr) simp
  then have "sort arr = sort ?l @ arr ! k # sort ?r"
    using srt by (rule properties_for_sort)
  moreover have "length (sort ?l) = k" using assms(1) by simp
  ultimately show ?thesis by (metis nth_append_length)
qed

lemma permuted_in_source:
  assumes "permuted_in l h a b" and "i < length a"
  shows "\<exists>i'<length a. b ! i = a ! i' \<and> (i < l \<or> h < i \<longrightarrow> i' = i)
           \<and> (l \<le> i \<and> i \<le> h \<longrightarrow> l \<le> i' \<and> i' \<le> h)"
proof (cases "l \<le> i \<and> i \<le> h")
  case True
  with assms show ?thesis unfolding permuted_in_def by (metis not_le)
next
  case False
  with assms show ?thesis unfolding permuted_in_def by (metis not_le)
qed

lemma permuted_in_split_at:
  assumes "permuted_in l h a b" and "split_at a k" and "k \<le> l \<or> h < k"
  shows "split_at b k"
  unfolding split_at_def
proof (intro allI impI)
  fix i j assume ij: "i < k \<and> k \<le> j \<and> j < length b"
  have len: "length b = length a" using assms(1) by (simp add: permuted_in_def)
  from permuted_in_source [OF assms(1), of i] ij len
  obtain i' where i': "i' < length a" "b ! i = a ! i'" "i < l \<or> h < i \<longrightarrow> i' = i"
    "l \<le> i \<and> i \<le> h \<longrightarrow> l \<le> i' \<and> i' \<le> h"
    by auto
  from permuted_in_source [OF assms(1), of j] ij len
  obtain j' where j': "j' < length a" "b ! j = a ! j'" "j < l \<or> h < j \<longrightarrow> j' = j"
    "l \<le> j \<and> j \<le> h \<longrightarrow> l \<le> j' \<and> j' \<le> h"
    by auto
  have "i' < k" using i'(3,4) ij assms(3) by (cases "l \<le> i \<and> i \<le> h") auto
  moreover have "k \<le> j'" using j'(3,4) ij assms(3) by (cases "l \<le> j \<and> j \<le> h") auto
  ultimately have "a ! i' \<le> a ! j'"
    using assms(2) j'(1) by (simp add: split_at_def)
  then show "b ! i \<le> b ! j" by (simp add: i'(2) j'(2))
qed

lemma permuted_in_placed:
  assumes "permuted_in l h a b" and "placed a k" and "k < l \<or> h < k" and "k < length a"
  shows "placed b k"
proof -
  have len: "length b = length a" using assms(1) by (simp add: permuted_in_def)
  have bk: "b ! k = a ! k"
    using assms(1,3,4) by (auto simp: permuted_in_def)
  have "b ! i \<le> b ! k" if "i < k" for i
  proof -
    from permuted_in_source [OF assms(1), of i] that assms(4)
    obtain i' where i': "i' < length a" "b ! i = a ! i'" "i < l \<or> h < i \<longrightarrow> i' = i"
      "l \<le> i \<and> i \<le> h \<longrightarrow> l \<le> i' \<and> i' \<le> h"
      by auto
    have "i' < k" using i'(3,4) that assms(3) by (cases "l \<le> i \<and> i \<le> h") auto
    with assms(2) show ?thesis by (simp add: placed_def bk i'(2))
  qed
  moreover have "b ! k \<le> b ! j" if "k < j" "j < length b" for j
  proof -
    from permuted_in_source [OF assms(1), of j] that len
    obtain j' where j': "j' < length a" "b ! j = a ! j'" "j < l \<or> h < j \<longrightarrow> j' = j"
      "l \<le> j \<and> j \<le> h \<longrightarrow> l \<le> j' \<and> j' \<le> h"
      by auto
    have "k < j'" using j'(3,4) that assms(3) by (cases "l \<le> j \<and> j \<le> h") auto
    with assms(2) j'(1) show ?thesis by (simp add: placed_def bk j'(2))
  qed
  ultimately show ?thesis by (simp add: placed_def)
qed


subsection \<open>The outer loop\<close>

text \<open>
  The invariant of the outer loop: either the rank \<open>median\<close> is inside the active range
  \<open>[low, high]\<close>, which is split off from the elements before and after it, or the range
  no longer contains \<open>median\<close> and the element there is already placed.
\<close>

definition select_inv :: "real list \<Rightarrow> nat \<Rightarrow> nat \<Rightarrow> int \<Rightarrow> bool" where
  "select_inv arr median low high \<longleftrightarrow>
     median < length arr \<and> high < int (length arr)
     \<and> (low \<le> median \<and> int median \<le> high \<and> split_at arr low \<and> split_at arr (nat high + 1)
        \<or> (median < low \<or> high < int median) \<and> placed arr median)"

lemma sort_permuted_in: "permuted_in l h a b \<Longrightarrow> sort b = sort a"
  by (rule properties_for_sort) (simp_all add: permuted_in_def)

lemma split_at_placed:
  assumes "split_at arr k" "split_at arr (Suc k)" "k < length arr"
  shows "placed arr k"
  unfolding placed_def
proof (intro conjI allI impI)
  fix i assume "i < k"
  with assms(1,3) show "arr ! i \<le> arr ! k" by (simp add: split_at_def)
next
  fix j assume "k < j \<and> j < length arr"
  with assms(2) show "arr ! k \<le> arr ! j" by (simp add: split_at_def)
qed

lemma select_inv_two:
  assumes inv: "select_inv arr median low (int h)" and h: "h = Suc low"
    and p: "permuted_in low h arr a1" and le: "a1 ! low \<le> a1 ! h"
  shows "placed a1 median"
proof (cases "low \<le> median \<and> median \<le> h")
  case True
  with inv have "split_at arr low" "split_at arr (Suc h)" "h < length arr"
    by (auto simp: select_inv_def)
  then have s: "split_at arr low" "split_at arr (Suc (Suc low))"
    and n: "Suc low < length arr"
    and p: "permuted_in low (Suc low) arr a1" and le: "a1 ! low \<le> a1 ! Suc low"
    using p le by (simp_all add: h)
  have med: "low \<le> median \<and> median \<le> Suc low" using True by (simp add: h)
  have A: "split_at a1 low" using p s(1) by (rule permuted_in_split_at) simp
  have B: "split_at a1 (Suc (Suc low))" using p s(2) by (rule permuted_in_split_at) simp
  have len: "length a1 = length arr" using p by (simp add: permuted_in_def)
  have M: "split_at a1 (Suc low)"
    unfolding split_at_def
  proof (intro allI impI)
    fix i j assume ij: "i < Suc low \<and> Suc low \<le> j \<and> j < length a1"
    have 1: "a1 ! i \<le> a1 ! low"
      using A ij n len by (cases "i = low") (auto simp: split_at_def)
    have 2: "a1 ! Suc low \<le> a1 ! j"
      using B ij by (cases "j = Suc low") (auto simp: split_at_def)
    from 1 le 2 show "a1 ! i \<le> a1 ! j" by simp
  qed
  from med have "median = low \<or> median = Suc low" by auto
  then show ?thesis using A M B n len by (auto intro: split_at_placed)
next
  case False
  with inv have "placed arr median" "median < low \<or> h < median" "median < length arr"
    by (auto simp: select_inv_def)
  with p show ?thesis by (intro permuted_in_placed [OF p]) auto
qed

lemma select_inv_step:
  assumes inv: "select_inv arr median low (int h)" and lh: "Suc low < h"
    and p: "permuted_in low h arr a6" and b: "low \<le> hh" "hh < ll" "ll \<le> h"
    and left: "\<forall>i. low \<le> i \<and> i < ll \<longrightarrow> a6 ! i \<le> a6 ! hh"
    and right: "\<forall>j. hh \<le> j \<and> j \<le> h \<longrightarrow> a6 ! hh \<le> a6 ! j"
  shows "select_inv a6 median (if hh \<le> median then ll else low)
           (if hh \<ge> median then int hh - 1 else int h)"
proof -
  have len: "length a6 = length arr" using p by (simp add: permuted_in_def)
  have med: "median < length arr" and hn: "h < length arr"
    using inv by (auto simp: select_inv_def)
  show ?thesis
  proof (cases "low \<le> median \<and> median \<le> h")
    case False
    with inv have "placed arr median" "median < low \<or> h < median"
      by (auto simp: select_inv_def)
    with p med have "placed a6 median" by (intro permuted_in_placed [OF p]) auto
    with False b med hn len show ?thesis
      by (auto simp: select_inv_def)
  next
    case True
    with inv have s: "split_at arr low" "split_at arr (Suc h)"
      by (auto simp: select_inv_def)
    have A: "split_at a6 low" using p s(1) by (rule permuted_in_split_at) simp
    have B: "split_at a6 (Suc h)" using p s(2) by (rule permuted_in_split_at) simp
    have mid: "a6 ! i \<le> a6 ! j" if "i < ll" "hh \<le> j" "j < length a6" for i j
    proof -
      have 1: "a6 ! i \<le> a6 ! hh"
      proof (cases "low \<le> i")
        case True
        with that left show ?thesis by simp
      next
        case False
        with A b hn len show ?thesis by (simp add: split_at_def)
      qed
      have 2: "a6 ! hh \<le> a6 ! j"
      proof (cases "j \<le> h")
        case True
        with that right show ?thesis by simp
      next
        case False
        with B b that show ?thesis by (simp add: split_at_def)
      qed
      from 1 2 show ?thesis by simp
    qed
    have Sll: "split_at a6 ll" using mid b by (simp add: split_at_def)
    have Shh: "split_at a6 hh" using mid b by (simp add: split_at_def)
    have SShh: "split_at a6 (Suc hh)" using mid b by (simp add: split_at_def)
    consider (lt) "hh < median" "ll \<le> median" | (gap) "hh < median" "median < ll"
      | (eq) "hh = median" | (gt) "median < hh"
      by linarith
    then show ?thesis
    proof cases
      case lt
      with True Sll B med hn len show ?thesis by (simp add: select_inv_def)
    next
      case gap
      have "placed a6 median"
        unfolding placed_def using mid gap True hn len
        by (auto simp: less_imp_le)
      with gap med hn len show ?thesis by (simp add: select_inv_def)
    next
      case eq
      have "placed a6 hh"
        using Shh SShh b hn len by (intro split_at_placed) simp_all
      then have "placed a6 median" by (simp add: eq)
      with eq b med hn len show ?thesis by (simp add: select_inv_def)
    next
      case gt
      then have "nat (int hh - 1) + 1 = hh" by simp
      with gt True A Shh med hn len b show ?thesis by (simp add: select_inv_def)
    qed
  qed
qed

lemma median_loop_correct:
  assumes "select_inv arr median low high"
  shows "median_loop arr median low high = Some (sort arr ! median)"
  using assms
proof (induction "nat (high - int low)" arbitrary: arr low high rule: less_induct)
  case less
  note inv = less.prems
  have med: "median < length arr" and hi: "high < int (length arr)"
    using inv by (auto simp: select_inv_def)
  consider (single) "high \<le> int low" | (pair) "high = int low + 1" | (many) "int low + 1 < high"
    by linarith
  then show ?case
  proof cases
    case single
    have "placed arr median"
    proof (cases "low \<le> median \<and> int median \<le> high")
      case True
      with single have "median = low" "high = int low" by auto
      with inv True med show ?thesis
        by (auto simp: select_inv_def intro: split_at_placed)
    next
      case False
      with inv show ?thesis by (auto simp: select_inv_def)
    qed
    with med have "sort arr ! median = arr ! median" by (rule placed_sort_nth)
    with single med show ?thesis
      by (subst median_loop.simps) (simp add: load_def)
  next
    case pair
    then have h: "nat high = Suc low" "high = int (Suc low)" by auto
    with hi have n: "low < length arr" "Suc low < length arr" by auto
    from order2_spec [of low arr "Suc low" low "Suc low"] n
    obtain a1 where a1: "order2 arr low (Suc low) = Some a1" "permuted_in low (Suc low) arr a1"
      "a1 ! low \<le> a1 ! Suc low"
      by auto
    have len: "length a1 = length arr" using a1(2) by (simp add: permuted_in_def)
    have "placed a1 median"
      using inv refl a1(2,3) unfolding h(2) by (rule select_inv_two)
    with med len have "sort a1 ! median = a1 ! median" by (intro placed_sort_nth) simp_all
    moreover have "sort a1 = sort arr" using a1(2) by (rule sort_permuted_in)
    ultimately show ?thesis
      using pair a1(1) med len h by (subst median_loop.simps) (simp add: load_def)
  next
    case many
    define h where "h = nat high"
    have h: "Suc low < h" "h < length arr" "high = int h"
      using many hi by (auto simp: h_def)
    from pivot_partition_spec [OF h(1,2)]
    obtain a6 ll hh where r: "pivot_partition arr low h = Some (a6, ll, hh)"
      "permuted_in low h arr a6" "low \<le> hh" "hh < ll" "ll \<le> h"
      "\<forall>i. low \<le> i \<and> i < ll \<longrightarrow> a6 ! i \<le> a6 ! hh"
      "\<forall>j. hh \<le> j \<and> j \<le> h \<longrightarrow> a6 ! hh \<le> a6 ! j"
      by blast
    from pivot_partition_bounds [OF r(1)] have bd: "low < ll" "hh < h" by auto
    define low' where "low' = (if hh \<le> median then ll else low)"
    define high' where "high' = (if hh \<ge> median then int hh - 1 else int h)"
    have step: "median_loop arr median low high = median_loop a6 median low' high'"
      using many r(1) h(3)
      by (subst median_loop.simps) (simp add: low'_def high'_def)
    have inv': "select_inv a6 median low' high'"
      unfolding low'_def high'_def
      using inv h(1) r(2-7) unfolding h(3) by (rule select_inv_step)
    have dec: "nat (high' - int low') < nat (high - int low)"
      using bd many h(3) by (auto simp: low'_def high'_def)
    from less.hyps [OF dec inv'] have "median_loop a6 median low' high' = Some (sort a6 ! median)" .
    moreover have "sort a6 = sort arr" using r(2) by (rule sort_permuted_in)
    ultimately show ?thesis by (simp add: step)
  qed
qed

lemma FvecMedian_rank:
  assumes "input \<noteq> []"
  shows "FvecMedian input = Some (sort input ! ((length input - 1) div 2))"
proof -
  define n where "n = length input"
  define m where "m = (n - 1) div 2"
  have n: "0 < n" using assms by (simp add: n_def)
  have "m \<le> n - 1" by (simp add: m_def)
  with n have m: "m < n" "int m \<le> int n - 1" by linarith+
  have hi: "nat (int n - 1) = n - 1" by simp
  have "split_at input 0" by (simp add: split_at_def)
  moreover have "split_at input (nat (int n - 1) + 1)"
    using n unfolding hi by (simp add: split_at_def n_def)
  ultimately have "select_inv input m 0 (int n - 1)"
    using m unfolding select_inv_def n_def by simp
  then have "median_loop input m 0 (int n - 1) = Some (sort input ! m)"
    by (rule median_loop_correct)
  then show ?thesis
    using n unfolding FvecMedian_def Let_def hi n_def [symmetric] m_def by simp
qed


text \<open>
  Claim C2, as stated, fails for even lengths: \<^verbatim>\<open>FvecMedian\<close> returns the element at
  \<^verbatim>\<open>median = (low + high) / 2\<close>, the lower of the two middle elements, whereas
  \<^verbatim>\<open>MedianSimple\<close> returns their mean.
\<close>

theorem FvecMedian_even_length:
  "FvecMedian [1, 2, 3, 4] = Some 2 \<and> MedianSimple [1, 2, 3, 4] = 5 / 2"
proof
  show "FvecMedian [1, 2, 3, 4] = Some 2" by code_simp
  show "MedianSimple [1, 2, 3, 4] = 5 / 2" by (simp add: MedianSimple_def)
qed

text \<open>
  Claim C2, amended.  For every non-empty buffer \<^verbatim>\<open>FvecMedian\<close> returns, without a
  panic, the element of rank \<open>(n - 1) / 2\<close> of the sorted data.  For odd lengths this is the
  value of \<^verbatim>\<open>MedianSimple\<close>; for even lengths it is the lower of the two middle elements
  of the sorted data.
\<close>

theorem FvecMedian_selects:
  assumes "input \<noteq> []"
  shows "FvecMedian input = Some (sort input ! ((length input - 1) div 2))
       \<and> (odd (length input) \<longrightarrow> FvecMedian input = Some (MedianSimple input))
       \<and> (even (length input) \<longrightarrow> FvecMedian input = Some (sort input ! (length input div 2 - 1)))"
proof -
  note rank = FvecMedian_rank [OF assms]
  have "(length input - 1) div 2 = length input div 2" if "odd (length input)"
    using that by (auto elim!: oddE)
  moreover have "(length input - 1) div 2 = length input div 2 - 1" if "even (length input)"
    using that assms by (auto elim!: evenE)
  ultimately show ?thesis
    using rank assms by (auto simp: MedianSimple_def Let_def odd_iff_mod_2_eq_one)
qed

theorem FvecMedian_selects_witness:
  "FvecMedian [3, 1, 4, 1, 5] = Some 3 \<and> MedianSimple [3, 1, 4, 1, 5] = 3"
proof -
  have "FvecMedian [3, 1, 4, 1, 5] = Some 3"
    using FvecMedian_selects [of "[3, 1, 4, 1, 5]"] by simp
  moreover have "MedianSimple [3, 1, 4, 1, 5] = 3"
    by (simp add: MedianSimple_def)
  ultimately show ?thesis by simp
qed

end
